theory Spec2Isabelle
  imports Complex_Main
begin

section \<open>Conventions of the embedding\<close>

text \<open>
  The development covers the coordinate interpolator of \<^verbatim>\<open>src/util/interpolation.cc\<close> and the
  column operations of \<^verbatim>\<open>IceModelVec3\<close> (the unnamed source file \<^verbatim>\<open>part_000\<close>).

  \<^item> A C++ \<^verbatim>\<open>double\<close> (\<^verbatim>\<open>PetscScalar\<close>) is a \<^typ>\<open>real\<close>: arithmetic is exact, rounding is
    not modelled, except for the weights of the periodic policy, which are also given with
    binary64 rounding. The divisors of the code are differences of neighbouring grid points, which the
    checks of the code or the hypotheses of the theorems keep away from zero; the one divisor
    that depends on a free parameter (the period) is guarded in the model.
  \<^item> \<^verbatim>\<open>unsigned int\<close>, \<^verbatim>\<open>size_t\<close> and non-negative \<^verbatim>\<open>PetscInt\<close> counters are \<^typ>\<open>nat\<close>; the
    entries of \<^verbatim>\<open>std::vector<int>\<close> are \<^typ>\<open>int\<close>. No counter of the modelled code can wrap:
    every subtraction \<^verbatim>\<open>n - 1\<close> is behind a guard \<^verbatim>\<open>n >= 2\<close> or is written out.
  \<^item> An array and its size travel together as a list.
  \<^item> Every way of not returning normally is the left summand of a result \<open>error + 'a\<close>.
\<close>

datatype error =
    RuntimeError
  | AssertionFailure
  | OutOfBounds
  | SETERRQ nat
  | PetscEnd

text \<open>
  \<^item> \<open>RuntimeError\<close>: the exception \<^verbatim>\<open>pism::RuntimeError\<close> thrown by the interpolation code;
  \<^item> \<open>AssertionFailure\<close>: an \<^verbatim>\<open>assert\<close> whose condition is false;
  \<^item> \<open>OutOfBounds\<close>: a read or write outside the storage of an array (undefined behaviour);
  \<^item> \<open>SETERRQ c\<close>: a PETSc error return with code \<open>c\<close> (\<^verbatim>\<open>SETERRQn(c, ...)\<close>, passed up by
    \<^verbatim>\<open>CHKERRQ\<close>);
  \<^item> \<open>PetscEnd\<close>: the run is ended by \<^verbatim>\<open>PetscEnd()\<close> after a failed check.
\<close>

definition and_then :: "error + 'a \<Rightarrow> ('a \<Rightarrow> error + 'b) \<Rightarrow> error + 'b" where
  "and_then r f = (case r of Inl e \<Rightarrow> Inl e | Inr a \<Rightarrow> f a)"

definition read_at :: "'a list \<Rightarrow> nat \<Rightarrow> error + 'a" where
  "read_at v k = (if k < length v then Inr (v ! k) else Inl OutOfBounds)"

definition write_at :: "'a list \<Rightarrow> nat \<Rightarrow> 'a \<Rightarrow> error + 'a list" where
  "write_at v k a = (if k < length v then Inr (v[k := a]) else Inl OutOfBounds)"

text \<open>A counted \<^verbatim>\<open>for\<close> loop over the index values \<open>ks\<close>; the first error leaves the loop.\<close>

fun for_loop :: "'i list \<Rightarrow> ('i \<Rightarrow> 's \<Rightarrow> error + 's) \<Rightarrow> 's \<Rightarrow> error + 's" where
  "for_loop [] body s = Inr s"
| "for_loop (k # ks) body s =
     (case body k s of Inl e \<Rightarrow> Inl e | Inr s' \<Rightarrow> for_loop ks body s')"

section \<open>The coordinate interpolator (\<^verbatim>\<open>interpolation.cc\<close>)\<close>

record Interpolation =
  m_left :: "int list"
  m_right :: "int list"
  m_alpha :: "real list"

text \<open>The default constructor \<^verbatim>\<open>Interpolation::Interpolation()\<close>: three empty vectors.\<close>

definition Interpolation_new :: Interpolation where
  "Interpolation_new = \<lparr>m_left = [], m_right = [], m_alpha = []\<rparr>"

text \<open>\<^verbatim>\<open>std::vector::resize(n)\<close>: keeps the first \<open>n\<close> entries, appends value-initialised ones.\<close>

definition resize :: "nat \<Rightarrow> 'a::zero list \<Rightarrow> 'a list" where
  "resize n v = take n v @ replicate (n - length v) 0"

definition resize_all :: "nat \<Rightarrow> Interpolation \<Rightarrow> Interpolation" where
  "resize_all n s =
     \<lparr>m_left = resize n (m_left s), m_right = resize n (m_right s), m_alpha = resize n (m_alpha s)\<rparr>"

text \<open>
  Modelled from the spec: \<^verbatim>\<open>gsl_interp_bsearch\<close> belongs to the GSL library and its body is not
  among the sources. The spec describes it as the binary search that returns the bracket
  immediately at-or-below \<open>x\<close>, clamped to the index range it is given. The definition is the
  bisection loop of the library routine (\<^verbatim>\<open>while (ihi > ilo + 1) { i = (ihi + ilo)/2;
  if (x_array[i] > x) ihi = i; else ilo = i; } return ilo;\<close>); lemma \<open>gsl_interp_bsearch_bracket\<close>
  below shows that on a sorted grid it returns what the spec says. It reads \<open>x_array\<close> only at
  indices strictly between \<open>index_lo\<close> and \<open>index_hi\<close>.
\<close>

function gsl_interp_bsearch :: "real list \<Rightarrow> real \<Rightarrow> nat \<Rightarrow> nat \<Rightarrow> nat" where
  "gsl_interp_bsearch x_array x ilo ihi =
     (if ihi > ilo + 1 then
        (if x_array ! ((ihi + ilo) div 2) > x
         then gsl_interp_bsearch x_array x ilo ((ihi + ilo) div 2)
         else gsl_interp_bsearch x_array x ((ihi + ilo) div 2) ihi)
      else ilo)"
  by pat_completeness auto
termination
  by (relation "measure (\<lambda>(x_array, x, ilo, ihi). ihi - ilo)") auto

declare gsl_interp_bsearch.simps [simp del]

text \<open>
  The check loop shared by the three \<open>init\<close> functions (\<^verbatim>\<open>for (i = 0; i < input_x_size - 1; ++i)
  if (input_x[i] >= input_x[i + 1]) throw ...\<close>): true when the loop throws.
\<close>

fun not_increasing :: "real list \<Rightarrow> bool" where
  "not_increasing (a # b # rest) = (a \<ge> b \<or> not_increasing (b # rest))"
| "not_increasing [a] = False"
| "not_increasing [] = False"

text \<open>
  The trivial case \<^verbatim>\<open>input_x_size < 2\<close>: index 0 of each vector is written whatever the size of
  the output grid is.
\<close>

definition trivial_case :: "Interpolation \<Rightarrow> error + Interpolation" where
  "trivial_case s =
     and_then (write_at (m_left s) 0 0) (\<lambda>l.
     and_then (write_at (m_right s) 0 0) (\<lambda>r.
     and_then (write_at (m_alpha s) 0 0) (\<lambda>a.
       Inr \<lparr>m_left = l, m_right = r, m_alpha = a\<rparr>)))"

text \<open>The three assertions that close the body of each loop.\<close>

definition asserts_hold :: "nat \<Rightarrow> int \<Rightarrow> int \<Rightarrow> real \<Rightarrow> bool" where
  "asserts_hold input_x_size l r a =
     ((l \<ge> 0 \<and> l < int input_x_size) \<and> (r \<ge> 0 \<and> r < int input_x_size) \<and> (a \<ge> 0 \<and> a \<le> 1))"

text \<open>Index pair and weight of one output coordinate \<open>x\<close> in \<^verbatim>\<open>Interpolation::init_linear\<close>.\<close>

definition linear_entry :: "real list \<Rightarrow> real \<Rightarrow> nat \<times> nat \<times> real" where
  "linear_entry input_x x =
     (let L = gsl_interp_bsearch input_x x 0 (length input_x - 1);
          R = (if x > input_x ! L then L + 1 else L)
      in (L, R,
          if L \<noteq> R then
            (if x \<le> input_x ! R then (x - input_x ! L) / (input_x ! R - input_x ! L) else 1)
          else 0))"

text \<open>
  One pass of a loop body: the entry is stored at index \<open>i\<close> (inside the vectors, which were
  resized to the size of the output grid) and the assertions are checked.
\<close>

definition store_entry :: "nat \<Rightarrow> nat \<Rightarrow> nat \<times> nat \<times> real \<Rightarrow> Interpolation \<Rightarrow> error + Interpolation" where
  "store_entry input_x_size i e s =
     (case e of (L, R, a) \<Rightarrow>
        if asserts_hold input_x_size (int L) (int R) a
        then Inr \<lparr>m_left = (m_left s)[i := int L], m_right = (m_right s)[i := int R],
                  m_alpha = (m_alpha s)[i := a]\<rparr>
        else Inl AssertionFailure)"

definition init_linear :: "real list \<Rightarrow> real list \<Rightarrow> Interpolation \<Rightarrow> error + Interpolation" where
  "init_linear input_x output_x s0 =
     (let s = resize_all (length output_x) s0 in
      if length input_x < 2 then trivial_case s
      else if not_increasing input_x then Inl RuntimeError
      else for_loop [0..<length output_x]
             (\<lambda>i. store_entry (length input_x) i (linear_entry input_x (output_x ! i))) s)"

definition interpolate :: "Interpolation \<Rightarrow> real list \<Rightarrow> error + real list" where
  "interpolate s input_values =
     for_loop [0..<length (m_alpha s)]
       (\<lambda>k result.
          and_then (read_at (m_left s) k) (\<lambda>L.
          and_then (read_at (m_right s) k) (\<lambda>R.
            if 0 \<le> L \<and> nat L < length input_values \<and> 0 \<le> R \<and> nat R < length input_values
            then Inr (result[k := input_values ! nat L
                        + m_alpha s ! k * (input_values ! nat R - input_values ! nat L)])
            else Inl OutOfBounds)))
       (replicate (length (m_alpha s)) 0)"

definition LinearInterpolation :: "real list \<Rightarrow> real list \<Rightarrow> error + Interpolation" where
  "LinearInterpolation input_x output_x = init_linear input_x output_x Interpolation_new"

text \<open>\<^verbatim>\<open>NearestNeighbor::init\<close>: the linear weights, snapped to 0 or 1.\<close>

definition NearestNeighbor_init :: "real list \<Rightarrow> real list \<Rightarrow> Interpolation \<Rightarrow> error + Interpolation" where
  "NearestNeighbor_init input_x output_x s0 =
     and_then (init_linear input_x output_x s0) (\<lambda>s.
       for_loop [0..<length (m_alpha s)]
         (\<lambda>j t. Inr (t\<lparr>m_alpha := (m_alpha t)[j := (if m_alpha t ! j > 1 / 2 then 1 else 0)]\<rparr>)) s)"

definition NearestNeighbor :: "real list \<Rightarrow> real list \<Rightarrow> error + Interpolation" where
  "NearestNeighbor input_x output_x = NearestNeighbor_init input_x output_x Interpolation_new"

text \<open>
  \<^verbatim>\<open>PiecewiseConstant::init\<close>. The GSL accelerator it allocates and frees is never used and the
  allocation is taken to succeed; nothing inside the \<^verbatim>\<open>try\<close> block throws.
\<close>

definition PiecewiseConstant_entry :: "real list \<Rightarrow> real \<Rightarrow> nat \<times> nat \<times> real" where
  "PiecewiseConstant_entry input_x x =
     (let L = gsl_interp_bsearch input_x x 0 (length input_x - 1) in (L, L, 0))"

definition PiecewiseConstant_init :: "real list \<Rightarrow> real list \<Rightarrow> Interpolation \<Rightarrow> error + Interpolation" where
  "PiecewiseConstant_init input_x output_x s0 =
     (let s = resize_all (length output_x) s0 in
      if length input_x < 2 then trivial_case s
      else if not_increasing input_x then Inl RuntimeError
      else for_loop [0..<length output_x]
             (\<lambda>i. store_entry (length input_x) i (PiecewiseConstant_entry input_x (output_x ! i))) s)"

definition PiecewiseConstant :: "real list \<Rightarrow> real list \<Rightarrow> error + Interpolation" where
  "PiecewiseConstant input_x output_x = PiecewiseConstant_init input_x output_x Interpolation_new"

text \<open>
  \<^verbatim>\<open>LinearPeriodic::init\<close>. The weight of the wrap-around bracket divides by
  \<open>dx = (period - x_l) + x0\<close>; for \<open>dx = 0\<close> IEEE arithmetic yields an infinity or a NaN, which
  fails the assertion on the weight, so that case is written out as \<open>None\<close> (no weight in
  \<open>[0, 1]\<close>) instead of being left to the division by zero of \<^typ>\<open>real\<close>.
\<close>

definition LinearPeriodic_entry :: "real list \<Rightarrow> real \<Rightarrow> real \<Rightarrow> nat \<times> nat \<times> real option" where
  "LinearPeriodic_entry input_x x period =
     (let input_x_size = length input_x;
          L = (if x < input_x ! 0 then input_x_size - 1
               else gsl_interp_bsearch input_x x 0 input_x_size);
          R = (if x < input_x ! 0 then 0
               else if L + 1 < input_x_size then L + 1 else 0);
          x_l = input_x ! L;
          x_r = input_x ! R
      in (L, R,
          if L < R then Some ((x - x_l) / (x_r - x_l))
          else
            (let x0 = input_x ! 0; dx = (period - x_l) + x0 in
             if dx = 0 then None
             else if x > x0 then Some ((x - x_l) / dx)
             else Some (1 - (x_r - x) / dx))))"

definition LinearPeriodic_body ::
    "real list \<Rightarrow> real list \<Rightarrow> real \<Rightarrow> nat \<Rightarrow> Interpolation \<Rightarrow> error + Interpolation" where
  "LinearPeriodic_body input_x output_x period i s =
     (case LinearPeriodic_entry input_x (output_x ! i) period of
        (L, R, None) \<Rightarrow> Inl AssertionFailure
      | (L, R, Some alpha) \<Rightarrow> store_entry (length input_x) i (L, R, alpha) s)"

definition LinearPeriodic_init ::
    "real list \<Rightarrow> real list \<Rightarrow> real \<Rightarrow> Interpolation \<Rightarrow> error + Interpolation" where
  "LinearPeriodic_init input_x output_x period s0 =
     (let s = resize_all (length output_x) s0 in
      if length input_x < 2 then trivial_case s
      else if not_increasing input_x then Inl RuntimeError
      else for_loop [0..<length output_x] (LinearPeriodic_body input_x output_x period) s)"

definition LinearPeriodic :: "real list \<Rightarrow> real list \<Rightarrow> real \<Rightarrow> error + Interpolation" where
  "LinearPeriodic input_x output_x period =
     LinearPeriodic_init input_x output_x period Interpolation_new"

subsection \<open>The periodic weights in binary64\<close>

text \<open>
  Rounding to the nearest binary64 number, ties to even: 53 significant bits, the exponent of
  the last bit not below \<open>-1074\<close> (subnormal numbers). Results beyond the largest finite double,
  where IEEE arithmetic gives an infinity, are not modelled.
\<close>

definition round_even :: "real \<Rightarrow> int" where
  "round_even q =
     (let f = \<lfloor>q\<rfloor> in
      if q - of_int f < 1 / 2 then f
      else if q - of_int f > 1 / 2 then f + 1
      else if even f then f else f + 1)"

definition binary64 :: "real \<Rightarrow> real" where
  "binary64 r =
     (if r = 0 then 0
      else
        (let e = max (\<lfloor>log 2 \<bar>r\<bar>\<rfloor> - 52) (- 1074)
         in of_int (round_even (r / 2 powr of_int e)) * 2 powr of_int e))"

text \<open>
  \<^verbatim>\<open>LinearPeriodic::init\<close> once more, with the result of every arithmetic operation of the weight
  passed through \<open>fl\<close>, as a compiler that evaluates each \<^verbatim>\<open>double\<close> operation in binary64 does.
  With the identity for \<open>fl\<close> this is \<open>LinearPeriodic_entry\<close> (lemma \<open>LinearPeriodic_fl_exact\<close>);
  comparisons and the binary search are exact in either case.
\<close>

definition LinearPeriodic_entry_fl ::
    "(real \<Rightarrow> real) \<Rightarrow> real list \<Rightarrow> real \<Rightarrow> real \<Rightarrow> nat \<times> nat \<times> real option" where
  "LinearPeriodic_entry_fl fl input_x x period =
     (let input_x_size = length input_x;
          L = (if x < input_x ! 0 then input_x_size - 1
               else gsl_interp_bsearch input_x x 0 input_x_size);
          R = (if x < input_x ! 0 then 0
               else if L + 1 < input_x_size then L + 1 else 0);
          x_l = input_x ! L;
          x_r = input_x ! R
      in (L, R,
          if L < R then Some (fl (fl (x - x_l) / fl (x_r - x_l)))
          else
            (let x0 = input_x ! 0; dx = fl (fl (period - x_l) + x0) in
             if dx = 0 then None
             else if x > x0 then Some (fl (fl (x - x_l) / dx))
             else Some (fl (1 - fl (fl (x_r - x) / dx))))))"

definition LinearPeriodic_fl ::
    "(real \<Rightarrow> real) \<Rightarrow> real list \<Rightarrow> real list \<Rightarrow> real \<Rightarrow> error + Interpolation" where
  "LinearPeriodic_fl fl input_x output_x period =
     (let s = resize_all (length output_x) Interpolation_new in
      if length input_x < 2 then trivial_case s
      else if not_increasing input_x then Inl RuntimeError
      else for_loop [0..<length output_x]
             (\<lambda>i s. case LinearPeriodic_entry_fl fl input_x (output_x ! i) period of
                      (L, R, None) \<Rightarrow> Inl AssertionFailure
                    | (L, R, Some alpha) \<Rightarrow> store_entry (length input_x) i (L, R, alpha) s)
             s)"

section \<open>The column field store (\<^verbatim>\<open>IceModelVec3\<close>)\<close>

text \<open>
  The part of \<^verbatim>\<open>IceGrid\<close> that the column operations read: the height \<open>Lz\<close> of the
  computational box, the number \<open>Mz\<close> of vertical levels, their coordinates \<open>zlevels\<close>, and the
  horizontal ownership range \<^verbatim>\<open>xs, xm, ys, ym\<close> of the process.
\<close>

record IceGrid =
  Lz :: real
  Mz :: nat
  zlevels :: "real list"
  grid_xs :: int
  grid_xm :: int
  grid_ys :: int
  grid_ym :: int

text \<open>
  An allocated \<^verbatim>\<open>IceModelVec3\<close> whose array is accessible (\<^verbatim>\<open>checkAllocated\<close> and
  \<^verbatim>\<open>checkHaveArray\<close> succeed): \<open>array v i j\<close> is the column \<^verbatim>\<open>arr[i][j]\<close>, a list as long as the
  number of levels of the distributed array behind it.
\<close>

record IceModelVec3 =
  grid :: IceGrid
  array :: "int \<Rightarrow> int \<Rightarrow> real list"
  localp :: bool

definition owned :: "IceGrid \<Rightarrow> int \<Rightarrow> int \<Rightarrow> bool" where
  "owned g i j \<longleftrightarrow>
     grid_xs g \<le> i \<and> i < grid_xs g + grid_xm g \<and> grid_ys g \<le> j \<and> j < grid_ys g + grid_ym g"

text \<open>\<^verbatim>\<open>IceModelVec3::isLegalLevel\<close>: the PETSc error code, 0 for a legal level.\<close>

definition isLegalLevel :: "IceGrid \<Rightarrow> real \<Rightarrow> nat" where
  "isLegalLevel g z =
     (if z < 0 - 1 / 1000000 then 1
      else if z > Lz g + 1 / 1000000 then 2
      else 0)"

text \<open>
  The scan \<^verbatim>\<open>while (levels[mcurr+1] < z) mcurr++;\<close> that every column operation uses. The
  loop has no bound of its own: reading \<open>levels[mcurr+1]\<close> past the last entry is \<open>OutOfBounds\<close>.
\<close>

function bracket_scan :: "real list \<Rightarrow> real \<Rightarrow> nat \<Rightarrow> error + nat" where
  "bracket_scan levels z mcurr =
     (if mcurr + 1 < length levels then
        (if levels ! (mcurr + 1) < z then bracket_scan levels z (mcurr + 1) else Inr mcurr)
      else Inl OutOfBounds)"
  by pat_completeness auto
termination
  by (relation "measure (\<lambda>(levels, z, mcurr). length levels - mcurr)") auto

declare bracket_scan.simps [simp del]

text \<open>
  \<^verbatim>\<open>IceModelVec3::setValColumnPL\<close>. The result is the error, if any, together with the field as
  the call leaves it. \<open>nlevels\<close> is the length of \<open>levelsIN\<close>.
\<close>

fun setValColumnPL_loop ::
    "real list \<Rightarrow> real list \<Rightarrow> real list \<Rightarrow> nat list \<Rightarrow> nat \<Rightarrow> real list \<Rightarrow> error option \<times> real list" where
  "setValColumnPL_loop levels levelsIN valsIN [] mcurr column = (None, column)"
| "setValColumnPL_loop levels levelsIN valsIN (k # ks) mcurr column =
     (case
        and_then (read_at levels k) (\<lambda>z.
        and_then (bracket_scan levelsIN z mcurr) (\<lambda>m.
        and_then (read_at valsIN m) (\<lambda>v0.
        and_then (read_at valsIN (m + 1)) (\<lambda>v1.
        and_then (write_at column k
                   (v0 + (z - levelsIN ! m) / (levelsIN ! (m + 1) - levelsIN ! m) * (v1 - v0)))
          (\<lambda>column'. Inr (m, column'))))))
      of Inl e \<Rightarrow> (Some e, column)
       | Inr (m, column') \<Rightarrow> setValColumnPL_loop levels levelsIN valsIN ks m column')"

definition setValColumnPL ::
    "IceModelVec3 \<Rightarrow> int \<Rightarrow> int \<Rightarrow> real list \<Rightarrow> real list \<Rightarrow> error option \<times> IceModelVec3" where
  "setValColumnPL v i j levelsIN valsIN =
     (case read_at levelsIN 0 of
        Inl e \<Rightarrow> (Some e, v)
      | Inr z_first \<Rightarrow>
          if z_first > 0 + 1 / 1000 then (Some (SETERRQ 1), v)
          else
            (case read_at levelsIN (length levelsIN - 1) of
               Inl e \<Rightarrow> (Some e, v)
             | Inr z_last \<Rightarrow>
                 if z_last < Lz (grid v) - 1 / 1000 then (Some (SETERRQ 2), v)
                 else if not_increasing levelsIN then (Some (SETERRQ 3), v)
                 else
                   (case setValColumnPL_loop (zlevels (grid v)) levelsIN valsIN
                           [0..<Mz (grid v)] 0 (array v i j) of
                      (r, column) \<Rightarrow>
                        (r, v\<lparr>array := (array v)(i := (array v i)(j := column))\<rparr>))))"

text \<open>
  \<^verbatim>\<open>IceModelVec3::getValZ\<close>. A level that is not legal ends the run (\<^verbatim>\<open>PetscEnd\<close>).
\<close>

definition getValZ :: "IceModelVec3 \<Rightarrow> int \<Rightarrow> int \<Rightarrow> real \<Rightarrow> error + real" where
  "getValZ v i j z =
     (let g = grid v; arr = array v i j; levels = zlevels g in
      if isLegalLevel g z \<noteq> 0 then Inl PetscEnd
      else if z \<ge> Lz g then read_at arr (Mz g - 1)
      else if z \<le> 0 then read_at arr 0
      else
        and_then (bracket_scan levels z 0) (\<lambda>mcurr.
        and_then (read_at arr mcurr) (\<lambda>valm.
        and_then (read_at arr (mcurr + 1)) (\<lambda>valp.
          Inr (valm + (z - levels ! mcurr) / (levels ! (mcurr + 1) - levels ! mcurr)
                        * (valp - valm))))))"

text \<open>
  \<^verbatim>\<open>IceModelVec3::getValColumnPL\<close>. The loop runs over the query levels; \<open>mcurr\<close> is kept from
  one query level to the next. The result list is \<open>valsOUT\<close>.
\<close>

fun getValColumnPL_loop :: "IceGrid \<Rightarrow> real list \<Rightarrow> nat \<Rightarrow> real list \<Rightarrow> error + real list" where
  "getValColumnPL_loop g arr mcurr [] = Inr []"
| "getValColumnPL_loop g arr mcurr (z # zs) =
     and_then (read_at (zlevels g) (Mz g - 1)) (\<lambda>z_top.
       if z > z_top then
         and_then (read_at arr (Mz g - 1)) (\<lambda>val.
         and_then (getValColumnPL_loop g arr mcurr zs) (\<lambda>rest. Inr (val # rest)))
       else
         and_then (bracket_scan (zlevels g) z mcurr) (\<lambda>m.
         and_then (read_at arr m) (\<lambda>valm.
         and_then (read_at arr (m + 1)) (\<lambda>valp.
         and_then (getValColumnPL_loop g arr m zs) (\<lambda>rest.
           Inr ((valm + (z - zlevels g ! m) / (zlevels g ! (m + 1) - zlevels g ! m)
                          * (valp - valm)) # rest))))))"

definition getValColumnPL :: "IceModelVec3 \<Rightarrow> int \<Rightarrow> int \<Rightarrow> real list \<Rightarrow> error + real list" where
  "getValColumnPL v i j levelsIN =
     and_then (read_at levelsIN 0) (\<lambda>z_first.
       if isLegalLevel (grid v) z_first \<noteq> 0 then Inl (SETERRQ (isLegalLevel (grid v) z_first))
       else if not_increasing levelsIN then Inl (SETERRQ 1)
       else getValColumnPL_loop (grid v) (array v i j) 0 levelsIN)"

text \<open>\<^verbatim>\<open>IceModelVec3::getValColumnQUAD\<close>.\<close>

fun getValColumnQUAD_loop :: "IceGrid \<Rightarrow> real list \<Rightarrow> nat \<Rightarrow> real list \<Rightarrow> error + real list" where
  "getValColumnQUAD_loop g arr mcurr [] = Inr []"
| "getValColumnQUAD_loop g arr mcurr (z # zs) =
     and_then (read_at (zlevels g) (Mz g - 1)) (\<lambda>z_top.
       if z > z_top then
         and_then (read_at arr (Mz g - 1)) (\<lambda>val.
         and_then (getValColumnQUAD_loop g arr mcurr zs) (\<lambda>rest. Inr (val # rest)))
       else
         and_then (bracket_scan (zlevels g) z mcurr) (\<lambda>m.
         and_then (read_at arr m) (\<lambda>f0.
         and_then
           (if int m \<ge> int (Mz g) - 2 then
              and_then (read_at arr (m + 1)) (\<lambda>f1.
                Inr (f0 + (z - zlevels g ! m) / (zlevels g ! (m + 1) - zlevels g ! m) * (f1 - f0)))
            else
              and_then (read_at (zlevels g) (m + 2)) (\<lambda>z2.
              and_then (read_at arr (m + 1)) (\<lambda>f1.
              and_then (read_at arr (m + 2)) (\<lambda>f2.
                (let z0 = zlevels g ! m;
                     dz1 = zlevels g ! (m + 1) - z0;
                     dz2 = z2 - z0;
                     D1 = (f1 - f0) / dz1;
                     D2 = (f2 - f0) / dz2;
                     c = (D2 - D1) / (dz2 - dz1);
                     b = D1 - c * dz1;
                     s = z - z0
                 in Inr (f0 + s * (b + c * s)))))))
           (\<lambda>val.
         and_then (getValColumnQUAD_loop g arr m zs) (\<lambda>rest. Inr (val # rest))))))"

definition getValColumnQUAD :: "IceModelVec3 \<Rightarrow> int \<Rightarrow> int \<Rightarrow> real list \<Rightarrow> error + real list" where
  "getValColumnQUAD v i j levelsIN =
     and_then (read_at levelsIN 0) (\<lambda>z_first.
       if isLegalLevel (grid v) z_first \<noteq> 0 then Inl (SETERRQ (isLegalLevel (grid v) z_first))
       else if not_increasing levelsIN then Inl (SETERRQ 1)
       else getValColumnQUAD_loop (grid v) (array v i j) 0 levelsIN)"

subsection \<open>Vertical extension\<close>

text \<open>
  The nest \<^verbatim>\<open>for (i = xs; i < xs+xm; i++) for (j = ys; j < ys+ym; j++)\<close> over the owned cells,
  whose body works on the column \<^verbatim>\<open>a[i][j]\<close>.
\<close>

definition for_owned ::
    "IceGrid \<Rightarrow> (int \<Rightarrow> int \<Rightarrow> real list \<Rightarrow> error + real list) \<Rightarrow>
     (int \<Rightarrow> int \<Rightarrow> real list) \<Rightarrow> error + (int \<Rightarrow> int \<Rightarrow> real list)" where
  "for_owned g body a0 =
     for_loop [grid_xs g..grid_xs g + grid_xm g - 1]
       (\<lambda>i. for_loop [grid_ys g..grid_ys g + grid_ym g - 1]
          (\<lambda>j a. and_then (body i j (a i j)) (\<lambda>column. Inr (a(i := (a i)(j := column))))))
       a0"

text \<open>
  \<^verbatim>\<open>IceModelVec3::extend_vertically_private\<close>. The grid already has the new \<open>Mz\<close>. The vector
  that \<^verbatim>\<open>DACreate3d\<close> and \<^verbatim>\<open>DACreateLocalVector\<close>/\<^verbatim>\<open>DACreateGlobalVector\<close> create is the
  argument \<open>a_new\<close>: PETSc does not say what a fresh vector holds. The creation calls are taken to
  succeed.
\<close>

definition extend_vertically_private ::
    "IceModelVec3 \<Rightarrow> (int \<Rightarrow> int \<Rightarrow> real list) \<Rightarrow> nat \<Rightarrow> error + IceModelVec3" where
  "extend_vertically_private v a_new old_Mz =
     and_then
       (for_owned (grid v)
          (\<lambda>i j. for_loop [0..<old_Mz]
             (\<lambda>k column. and_then (read_at (array v i j) k) (write_at column k)))
          a_new)
       (\<lambda>a. Inr (v\<lparr>array := a\<rparr>))"

text \<open>
  Modelled from the spec: \<^verbatim>\<open>beginGhostComm\<close> and \<^verbatim>\<open>endGhostComm\<close> belong to the base class
  \<^verbatim>\<open>IceModelVec\<close>, which is not among the sources. The spec calls them the ghost-exchange service:
  a ghost cell is a local copy of a neighbouring process's boundary data. The exchange therefore
  replaces the columns outside the owned range by what the neighbours deliver (\<open>halo\<close>) and
  leaves the owned columns alone.
\<close>

definition GhostComm :: "(int \<Rightarrow> int \<Rightarrow> real list) \<Rightarrow> IceModelVec3 \<Rightarrow> IceModelVec3" where
  "GhostComm halo v =
     v\<lparr>array := (\<lambda>i j. if owned (grid v) i j then array v i j else halo i j)\<rparr>"

text \<open>
  The two overloads of \<^verbatim>\<open>IceModelVec3::extend_vertically\<close>. The second takes the array
  \<^verbatim>\<open>filler[i][j]\<close> of an \<^verbatim>\<open>IceModelVec2\<close>.
\<close>

definition extend_vertically ::
    "IceModelVec3 \<Rightarrow> (int \<Rightarrow> int \<Rightarrow> real list) \<Rightarrow> (int \<Rightarrow> int \<Rightarrow> real list) \<Rightarrow>
     nat \<Rightarrow> real \<Rightarrow> error + IceModelVec3" where
  "extend_vertically v a_new halo old_Mz fill_value =
     and_then (extend_vertically_private v a_new old_Mz) (\<lambda>v1.
     and_then
       (for_owned (grid v1)
          (\<lambda>i j. for_loop [old_Mz..<Mz (grid v1)] (\<lambda>k column. write_at column k fill_value))
          (array v1))
       (\<lambda>a. Inr (if localp v1 then GhostComm halo (v1\<lparr>array := a\<rparr>) else v1\<lparr>array := a\<rparr>)))"

definition extend_vertically_field ::
    "IceModelVec3 \<Rightarrow> (int \<Rightarrow> int \<Rightarrow> real list) \<Rightarrow> (int \<Rightarrow> int \<Rightarrow> real list) \<Rightarrow>
     nat \<Rightarrow> (int \<Rightarrow> int \<Rightarrow> real) \<Rightarrow> error + IceModelVec3" where
  "extend_vertically_field v a_new halo old_Mz filler =
     and_then (extend_vertically_private v a_new old_Mz) (\<lambda>v1.
     and_then
       (for_owned (grid v1)
          (\<lambda>i j. for_loop [old_Mz..<Mz (grid v1)] (\<lambda>k column. write_at column k (filler i j)))
          (array v1))
       (\<lambda>a. Inr (if localp v1 then GhostComm halo (v1\<lparr>array := a\<rparr>) else v1\<lparr>array := a\<rparr>)))"

section \<open>Notions of the specification\<close>

text \<open>
  The invariant of the spec's data model for an ice field: \<open>Mz\<close> level coordinates, at least one,
  strictly increasing, spanning \<open>[0, Lz]\<close>.
\<close>

definition ice_levels_ok :: "IceGrid \<Rightarrow> bool" where
  "ice_levels_ok g \<longleftrightarrow>
     length (zlevels g) = Mz g \<and> 1 \<le> Mz g \<and> sorted_wrt (<) (zlevels g) \<and>
     zlevels g ! 0 = 0 \<and> zlevels g ! (Mz g - 1) = Lz g"

text \<open>
  The lower index \<open>m\<close> of the pair of stored levels that encloses the query level \<open>z\<close>: the
  level above is at or above \<open>z\<close>, the level \<open>m\<close> itself is below \<open>z\<close> unless \<open>m\<close> is the first.
\<close>

definition bracket :: "IceGrid \<Rightarrow> nat \<Rightarrow> real \<Rightarrow> bool" where
  "bracket g m z \<longleftrightarrow>
     m + 1 < Mz g \<and> z \<le> zlevels g ! (m + 1) \<and> (m = 0 \<or> zlevels g ! m < z)"

text \<open>The polynomial \<open>a + b t + c t\<^sup>2\<close>.\<close>

definition quadratic :: "real \<Rightarrow> real \<Rightarrow> real \<Rightarrow> real \<Rightarrow> real" where
  "quadratic a b c t = a + b * t + c * t * t"

text \<open>
  What local quadratic interpolation has to return at a query level \<open>z\<close>, in the words of the
  spec: the top value above the top level; otherwise, for the enclosing bracket \<open>m\<close>, the value
  at \<open>z\<close> of the quadratic polynomial through the three samples at levels \<open>m\<close>, \<open>m + 1\<close>,
  \<open>m + 2\<close> when \<open>m < Mz - 2\<close> (such a polynomial exists, and all of them agree at \<open>z\<close>), and the
  linear interpolant between the levels \<open>m\<close> and \<open>m + 1\<close> when \<open>m \<ge> Mz - 2\<close>.
\<close>

definition QUAD_value :: "IceGrid \<Rightarrow> real list \<Rightarrow> real \<Rightarrow> real \<Rightarrow> bool" where
  "QUAD_value g arr z val \<longleftrightarrow>
     (z > zlevels g ! (Mz g - 1) \<longrightarrow> val = arr ! (Mz g - 1)) \<and>
     (z \<le> zlevels g ! (Mz g - 1) \<longrightarrow>
        (\<exists>m. bracket g m z) \<and>
        (\<forall>m. bracket g m z \<longrightarrow>
           (m + 2 < Mz g \<longrightarrow>
              (\<exists>a b c. quadratic a b c (zlevels g ! m) = arr ! m \<and>
                       quadratic a b c (zlevels g ! (m + 1)) = arr ! (m + 1) \<and>
                       quadratic a b c (zlevels g ! (m + 2)) = arr ! (m + 2)) \<and>
              (\<forall>a b c. quadratic a b c (zlevels g ! m) = arr ! m \<and>
                       quadratic a b c (zlevels g ! (m + 1)) = arr ! (m + 1) \<and>
                       quadratic a b c (zlevels g ! (m + 2)) = arr ! (m + 2) \<longrightarrow>
                       val = quadratic a b c z)) \<and>
           (\<not> m + 2 < Mz g \<longrightarrow>
              val = arr ! m + (z - zlevels g ! m) / (zlevels g ! (m + 1) - zlevels g ! m)
                                * (arr ! (m + 1) - arr ! m))))"

subsection \<open>Example data\<close>

text \<open>The ice field of the spec's scenario: levels \<open>[0,10,20,30]\<close>, column \<open>[100,200,300,400]\<close>.\<close>

definition example_grid :: IceGrid where
  "example_grid = \<lparr>Lz = 30, Mz = 4, zlevels = [0, 10, 20, 30],
                    grid_xs = 0, grid_xm = 1, grid_ys = 0, grid_ym = 1\<rparr>"

definition example_field :: IceModelVec3 where
  "example_field = \<lparr>grid = example_grid, array = (\<lambda>i j. [100, 200, 300, 400]), localp = False\<rparr>"

text \<open>The same grid with the column \<open>[0,100,400,900]\<close>, the samples of \<open>z\<^sup>2\<close>.\<close>

definition example_curved_field :: IceModelVec3 where
  "example_curved_field = \<lparr>grid = example_grid, array = (\<lambda>i j. [0, 100, 400, 900]), localp = False\<rparr>"

text \<open>
  A ghosted field that still has two levels on the grid of four, and fresh storage for its
  extension.
\<close>

definition example_storage :: "int \<Rightarrow> int \<Rightarrow> real list" where
  "example_storage i j = [1, 2, 3, 4]"

definition example_short_field :: IceModelVec3 where
  "example_short_field =
     \<lparr>grid = example_grid, array = (\<lambda>i j. [100, 200]), localp = True\<rparr>"

section \<open>Properties of the coordinate interpolator\<close>

subsection \<open>Sequencing and iteration\<close>

lemma and_then_Inr [simp]: "and_then (Inr a) f = f a"
  by (simp add: and_then_def)

lemma and_then_Inl [simp]: "and_then (Inl e) f = Inl e"
  by (simp add: and_then_def)

lemma for_loop_append:
  "for_loop (ks @ js) body s = and_then (for_loop ks body s) (for_loop js body)"
  by (induction ks arbitrary: s) (auto split: sum.splits)

subsection \<open>The grid check and the binary search\<close>

lemma not_increasing_iff: "not_increasing v \<longleftrightarrow> \<not> sorted_wrt (<) v"
proof (induction v rule: not_increasing.induct)
  case (1 a b rest)
  then show ?case by (auto simp: not_le intro: less_trans)
qed simp_all

lemma gsl_interp_bsearch_bracket:
  assumes "sorted v" and "ihi \<le> length v" and "ilo < ihi"
  shows "ilo \<le> gsl_interp_bsearch v x ilo ihi \<and> gsl_interp_bsearch v x ilo ihi < ihi \<and>
         (gsl_interp_bsearch v x ilo ihi = ilo \<or> v ! gsl_interp_bsearch v x ilo ihi \<le> x) \<and>
         (\<forall>k. gsl_interp_bsearch v x ilo ihi < k \<and> k < ihi \<longrightarrow> x < v ! k)"
  using assms
proof (induction v x ilo ihi rule: gsl_interp_bsearch.induct)
  case (1 v x ilo ihi)
  let ?i = "(ihi + ilo) div 2"
  show ?case
  proof (cases "ihi > ilo + 1")
    case False
    then have "gsl_interp_bsearch v x ilo ihi = ilo"
      by (subst gsl_interp_bsearch.simps) simp
    with "1.prems" False show ?thesis by auto
  next
    case far: True
    then have mid: "ilo < ?i" "?i < ihi" by auto
    show ?thesis
    proof (cases "v ! ?i > x")
      case True
      have eq: "gsl_interp_bsearch v x ilo ihi = gsl_interp_bsearch v x ilo ?i"
        using far True by (subst gsl_interp_bsearch.simps) simp
      have ih: "ilo \<le> gsl_interp_bsearch v x ilo ?i \<and> gsl_interp_bsearch v x ilo ?i < ?i \<and>
         (gsl_interp_bsearch v x ilo ?i = ilo \<or> v ! gsl_interp_bsearch v x ilo ?i \<le> x) \<and>
         (\<forall>k. gsl_interp_bsearch v x ilo ?i < k \<and> k < ?i \<longrightarrow> x < v ! k)"
        using "1.IH"(1) [OF far True "1.prems"(1)] "1.prems"(2) mid by simp
      have above: "x < v ! k" if "?i \<le> k" "k < ihi" for k
      proof -
        have "v ! ?i \<le> v ! k"
          using \<open>sorted v\<close> that "1.prems"(2) by (simp add: sorted_iff_nth_mono)
        with True show ?thesis by simp
      qed
      have "x < v ! k" if "gsl_interp_bsearch v x ilo ?i < k" "k < ihi" for k
        using that ih above by (cases "k < ?i") auto
      then show ?thesis
        unfolding eq using ih mid by auto
    next
      case False
      have eq: "gsl_interp_bsearch v x ilo ihi = gsl_interp_bsearch v x ?i ihi"
        using far False by (subst gsl_interp_bsearch.simps) simp
      have ih: "?i \<le> gsl_interp_bsearch v x ?i ihi \<and> gsl_interp_bsearch v x ?i ihi < ihi \<and>
         (gsl_interp_bsearch v x ?i ihi = ?i \<or> v ! gsl_interp_bsearch v x ?i ihi \<le> x) \<and>
         (\<forall>k. gsl_interp_bsearch v x ?i ihi < k \<and> k < ihi \<longrightarrow> x < v ! k)"
        using "1.IH"(2) [OF far False "1.prems"(1)] "1.prems"(2) mid by simp
      have "v ! gsl_interp_bsearch v x ?i ihi \<le> x"
        using ih False by auto
      then show ?thesis
        unfolding eq using ih mid by auto
    qed
  qed
qed

subsection \<open>The linear policy\<close>

lemma for_loop_store_entry_upto:
  assumes ok: "\<forall>i<n. asserts_hold N (int (fst (e i))) (int (fst (snd (e i)))) (snd (snd (e i)))"
    and len: "length (m_left s) = n" "length (m_right s) = n" "length (m_alpha s) = n"
    and k: "k \<le> n"
  shows "for_loop [0..<k] (\<lambda>i. store_entry N i (e i)) s =
         Inr \<lparr>m_left = map (\<lambda>i. int (fst (e i))) [0..<k] @ drop k (m_left s),
              m_right = map (\<lambda>i. int (fst (snd (e i)))) [0..<k] @ drop k (m_right s),
              m_alpha = map (\<lambda>i. snd (snd (e i))) [0..<k] @ drop k (m_alpha s)\<rparr>"
  using k
proof (induction k)
  case 0
  show ?case by simp
next
  case (Suc k)
  then have k: "k < n" by simp
  have upd: "(map f [0..<k] @ drop k v)[k := a] = map f [0..<k] @ a # drop (Suc k) v"
    if "length v = n" for f :: "nat \<Rightarrow> 'b" and v a
    using k that by (simp add: list_update_append Cons_nth_drop_Suc [symmetric])
  have a: "asserts_hold N (int (fst (e k))) (int (fst (snd (e k)))) (snd (snd (e k)))"
    using ok k by simp
  have IH: "for_loop [0..<k] (\<lambda>i. store_entry N i (e i)) s =
         Inr \<lparr>m_left = map (\<lambda>i. int (fst (e i))) [0..<k] @ drop k (m_left s),
              m_right = map (\<lambda>i. int (fst (snd (e i)))) [0..<k] @ drop k (m_right s),
              m_alpha = map (\<lambda>i. snd (snd (e i))) [0..<k] @ drop k (m_alpha s)\<rparr>"
    using Suc.IH k by simp
  have split: "[0..<Suc k] = [0..<k] @ [k]" by simp
  show ?case
    unfolding split for_loop_append IH
    using a
    by (simp add: store_entry_def split_beta del: upt_Suc)
       (simp add: upd [OF len(1)] upd [OF len(2)] upd [OF len(3)])
qed

lemma for_loop_store_entry:
  assumes "\<forall>i<n. asserts_hold N (int (fst (e i))) (int (fst (snd (e i)))) (snd (snd (e i)))"
    and "length (m_left s) = n" "length (m_right s) = n" "length (m_alpha s) = n"
  shows "for_loop [0..<n] (\<lambda>i. store_entry N i (e i)) s =
         Inr \<lparr>m_left = map (\<lambda>i. int (fst (e i))) [0..<n],
              m_right = map (\<lambda>i. int (fst (snd (e i)))) [0..<n],
              m_alpha = map (\<lambda>i. snd (snd (e i))) [0..<n]\<rparr>"
  using for_loop_store_entry_upto [OF assms, of n] assms(2-4) by simp

lemma length_resize [simp]: "length (resize n v) = n"
  by (simp add: resize_def)

lemma linear_entry_bracket:
  assumes "sorted_wrt (<) input_x" and "2 \<le> length input_x"
    and "linear_entry input_x x = (L, R, a)"
  shows "L \<le> length input_x - 2" and "L = 0 \<or> input_x ! L \<le> x"
    and "\<forall>k. k \<le> length input_x - 2 \<and> input_x ! k \<le> x \<longrightarrow> k \<le> L"
    and "R = (if x > input_x ! L then L + 1 else L)"
    and "a = (if L \<noteq> R then
                (if x \<le> input_x ! R then (x - input_x ! L) / (input_x ! R - input_x ! L) else 1)
              else 0)"
proof -
  have s: "sorted input_x"
    using assms(1) by (simp add: strict_sorted_iff)
  have L: "L = gsl_interp_bsearch input_x x 0 (length input_x - 1)"
    using assms(3) by (simp add: linear_entry_def Let_def)
  note b = gsl_interp_bsearch_bracket [OF s, of "length input_x - 1" 0 x, folded L]
  show "L \<le> length input_x - 2" using b assms(2) by linarith
  show "L = 0 \<or> input_x ! L \<le> x" using b assms(2) by auto
  show "\<forall>k. k \<le> length input_x - 2 \<and> input_x ! k \<le> x \<longrightarrow> k \<le> L"
  proof (intro allI impI)
    fix k assume k: "k \<le> length input_x - 2 \<and> input_x ! k \<le> x"
    show "k \<le> L"
    proof (rule ccontr)
      assume "\<not> k \<le> L"
      then have "L < k \<and> k < length input_x - 1" using k assms(2) by auto
      then have "x < input_x ! k" using b assms(2) by auto
      with k show False by simp
    qed
  qed
  show "R = (if x > input_x ! L then L + 1 else L)"
    using assms(3) by (auto simp: linear_entry_def Let_def)
  show "a = (if L \<noteq> R then
                (if x \<le> input_x ! R then (x - input_x ! L) / (input_x ! R - input_x ! L) else 1)
              else 0)"
    using assms(3) by (auto simp: linear_entry_def Let_def)
qed

lemma linear_entry_asserts:
  assumes "sorted_wrt (<) input_x" and "2 \<le> length input_x"
    and e: "linear_entry input_x x = (L, R, a)"
  shows "asserts_hold (length input_x) (int L) (int R) a"
proof -
  note p = linear_entry_bracket [OF assms]
  have L: "L + 1 < length input_x" using p(1) assms(2) by simp
  have R: "R < length input_x" using p(4) L by (simp split: if_splits)
  have "0 \<le> a \<and> a \<le> 1"
  proof (cases "L \<noteq> R \<and> x \<le> input_x ! R")
    case True
    then have "R = L + 1" and "input_x ! L < x" using p(4) by (auto split: if_splits)
    then have "0 \<le> x - input_x ! L" and "x - input_x ! L \<le> input_x ! R - input_x ! L"
      and "0 < input_x ! R - input_x ! L"
      using True by auto
    then have "0 \<le> (x - input_x ! L) / (input_x ! R - input_x ! L)"
      and "(x - input_x ! L) / (input_x ! R - input_x ! L) \<le> 1"
      by (simp_all add: divide_le_eq_1)
    then show ?thesis using p(5) True by simp
  next
    case False
    then show ?thesis using p(5) by auto
  qed
  then show ?thesis using L R by (simp add: asserts_hold_def)
qed

lemma init_linear_result:
  assumes "sorted_wrt (<) input_x" and "2 \<le> length input_x"
  shows "init_linear input_x output_x Interpolation_new =
         Inr \<lparr>m_left = map (\<lambda>x. int (fst (linear_entry input_x x))) output_x,
              m_right = map (\<lambda>x. int (fst (snd (linear_entry input_x x)))) output_x,
              m_alpha = map (\<lambda>x. snd (snd (linear_entry input_x x))) output_x\<rparr>"
proof -
  have ok: "\<forall>i<length output_x. asserts_hold (length input_x)
              (int (fst (linear_entry input_x (output_x ! i))))
              (int (fst (snd (linear_entry input_x (output_x ! i)))))
              (snd (snd (linear_entry input_x (output_x ! i))))"
    using linear_entry_asserts [OF assms] by simp
  have m: "map (\<lambda>i. f (output_x ! i)) [0..<length output_x] = map f output_x" for f :: "real \<Rightarrow> 'b"
    by (rule nth_equalityI) simp_all
  show ?thesis
    using assms for_loop_store_entry [OF ok, of "resize_all (length output_x) Interpolation_new"]
    by (simp add: init_linear_def Let_def not_increasing_iff resize_all_def)
       (auto intro!: nth_equalityI)
qed

lemma for_loop_fill_upto:
  assumes body: "\<And>k r. k < n \<Longrightarrow> length r = n \<Longrightarrow> body k r = Inr (r[k := g k])"
    and len: "length r0 = n" and k: "k \<le> n"
  shows "for_loop [0..<k] body r0 = Inr (map g [0..<k] @ drop k r0)"
  using k
proof (induction k)
  case 0
  show ?case by simp
next
  case (Suc k)
  then have k: "k < n" by simp
  have IH: "for_loop [0..<k] body r0 = Inr (map g [0..<k] @ drop k r0)"
    using Suc.IH k by simp
  have split: "[0..<Suc k] = [0..<k] @ [k]" by simp
  have l: "length (map g [0..<k] @ drop k r0) = n" using k len by simp
  show ?case
    unfolding split for_loop_append IH
    using k len by (simp add: body [OF k l])
      (simp add: list_update_append Cons_nth_drop_Suc [symmetric])
qed

lemma for_loop_fill:
  assumes "\<And>k r. k < n \<Longrightarrow> length r = n \<Longrightarrow> body k r = Inr (r[k := g k])"
    and "length r0 = n"
  shows "for_loop [0..<n] body r0 = Inr (map g [0..<n])"
  using for_loop_fill_upto [OF assms, of n] assms(2) by simp

lemma interpolate_result:
  assumes len: "length (m_left s) = length (m_alpha s)" "length (m_right s) = length (m_alpha s)"
    and rng: "\<forall>k<length (m_alpha s). 0 \<le> m_left s ! k \<and> nat (m_left s ! k) < length input_values \<and>
                0 \<le> m_right s ! k \<and> nat (m_right s ! k) < length input_values"
  shows "interpolate s input_values =
         Inr (map (\<lambda>k. input_values ! nat (m_left s ! k)
                + m_alpha s ! k * (input_values ! nat (m_right s ! k) - input_values ! nat (m_left s ! k)))
              [0..<length (m_alpha s)])"
  unfolding interpolate_def
  by (rule for_loop_fill) (use len rng in \<open>simp_all add: read_at_def\<close>)


text \<open>
  Claim C1. For a strictly increasing \<open>input_x\<close> with at least two points and any \<open>output_x\<close>, the
  linear policy is constructed without error, and for each output coordinate \<open>x\<close> it stores:
  \<open>L\<close>, the largest index at most \<open>size - 2\<close> whose grid point is at or below \<open>x\<close> (0 when there
  is none); \<open>R = L + 1\<close> if \<open>x > input_x[L]\<close> and \<open>R = L\<close> otherwise; and the weight
  \<open>(x - input_x[L]) / (input_x[R] - input_x[L])\<close> if \<open>L \<noteq> R\<close> and \<open>x \<le> input_x[R]\<close>, 1 if \<open>L \<noteq> R\<close>
  and \<open>x > input_x[R]\<close>, 0 if \<open>L = R\<close>. On \<open>input_x = [0,1,2,3]\<close> and
  \<open>output_x = [-1, 0, 1.5, 3, 5]\<close>, interpolating \<open>[v0,v1,v2,v3]\<close> gives
  \<open>[v0, v0, (v1+v2)/2, v3, v3]\<close>.
\<close>

theorem init_linear_brackets_and_weights:
  "(sorted_wrt (<) input_x \<and> 2 \<le> length input_x \<longrightarrow>
      (\<exists>s. LinearInterpolation input_x output_x = Inr s \<and>
           length (m_left s) = length output_x \<and> length (m_right s) = length output_x \<and>
           length (m_alpha s) = length output_x \<and>
           (\<forall>i<length output_x. \<exists>L R.
              m_left s ! i = int L \<and> m_right s ! i = int R \<and>
              L \<le> length input_x - 2 \<and>
              (L = 0 \<or> input_x ! L \<le> output_x ! i) \<and>
              (\<forall>k. k \<le> length input_x - 2 \<and> input_x ! k \<le> output_x ! i \<longrightarrow> k \<le> L) \<and>
              R = (if output_x ! i > input_x ! L then L + 1 else L) \<and>
              m_alpha s ! i =
                (if L \<noteq> R then
                   (if output_x ! i \<le> input_x ! R
                    then (output_x ! i - input_x ! L) / (input_x ! R - input_x ! L) else 1)
                 else 0)))) \<and>
   (\<exists>s. LinearInterpolation [0, 1, 2, 3] [-1, 0, 3 / 2, 3, 5] = Inr s \<and>
        interpolate s [v0, v1, v2, v3] = Inr [v0, v0, (v1 + v2) / 2, v3, v3])"
proof (intro conjI impI)
  assume a: "sorted_wrt (<) input_x \<and> 2 \<le> length input_x"
  let ?s = "\<lparr>m_left = map (\<lambda>x. int (fst (linear_entry input_x x))) output_x,
              m_right = map (\<lambda>x. int (fst (snd (linear_entry input_x x)))) output_x,
              m_alpha = map (\<lambda>x. snd (snd (linear_entry input_x x))) output_x\<rparr>"
  have r: "LinearInterpolation input_x output_x = Inr ?s"
    using a by (simp add: LinearInterpolation_def init_linear_result)
  have "\<exists>L R. m_left ?s ! i = int L \<and> m_right ?s ! i = int R \<and>
              L \<le> length input_x - 2 \<and>
              (L = 0 \<or> input_x ! L \<le> output_x ! i) \<and>
              (\<forall>k. k \<le> length input_x - 2 \<and> input_x ! k \<le> output_x ! i \<longrightarrow> k \<le> L) \<and>
              R = (if output_x ! i > input_x ! L then L + 1 else L) \<and>
              m_alpha ?s ! i =
                (if L \<noteq> R then
                   (if output_x ! i \<le> input_x ! R
                    then (output_x ! i - input_x ! L) / (input_x ! R - input_x ! L) else 1)
                 else 0)" if i: "i < length output_x" for i
  proof -
    obtain L R al where e: "linear_entry input_x (output_x ! i) = (L, R, al)"
      by (cases "linear_entry input_x (output_x ! i)")
    note p = linear_entry_bracket [OF conjunct1 [OF a] conjunct2 [OF a] e]
    show ?thesis
      apply (rule exI [of _ L], rule exI [of _ R])
      using i e p by simp
  qed
  then show "\<exists>s. LinearInterpolation input_x output_x = Inr s \<and>
           length (m_left s) = length output_x \<and> length (m_right s) = length output_x \<and>
           length (m_alpha s) = length output_x \<and>
           (\<forall>i<length output_x. \<exists>L R.
              m_left s ! i = int L \<and> m_right s ! i = int R \<and>
              L \<le> length input_x - 2 \<and>
              (L = 0 \<or> input_x ! L \<le> output_x ! i) \<and>
              (\<forall>k. k \<le> length input_x - 2 \<and> input_x ! k \<le> output_x ! i \<longrightarrow> k \<le> L) \<and>
              R = (if output_x ! i > input_x ! L then L + 1 else L) \<and>
              m_alpha s ! i =
                (if L \<noteq> R then
                   (if output_x ! i \<le> input_x ! R
                    then (output_x ! i - input_x ! L) / (input_x ! R - input_x ! L) else 1)
                 else 0))"
    using r by (intro exI [of _ ?s]) simp
next
  have c: "LinearInterpolation [0, 1, 2, 3] [-1, 0, 3 / 2, 3, 5] =
      Inr \<lparr>m_left = [0, 0, 1, 2, 2], m_right = [0, 0, 2, 3, 3], m_alpha = [0, 0, 1 / 2, 1, 1]\<rparr>"
    by (simp add: LinearInterpolation_def init_linear_def Interpolation_new_def resize_all_def
        resize_def store_entry_def linear_entry_def asserts_hold_def Let_def upt_rec
        gsl_interp_bsearch.simps)
  have "interpolate \<lparr>m_left = [0, 0, 1, 2, 2], m_right = [0, 0, 2, 3, 3],
                      m_alpha = [0, 0, 1 / 2, 1, 1]\<rparr> [v0, v1, v2, v3] =
        Inr [v0, v0, (v1 + v2) / 2, v3, v3]"
    by (simp add: interpolate_def read_at_def upt_rec field_simps)
  with c show "\<exists>s. LinearInterpolation [0, 1, 2, 3] [-1, 0, 3 / 2, 3, 5] = Inr s \<and>
        interpolate s [v0, v1, v2, v3] = Inr [v0, v0, (v1 + v2) / 2, v3, v3]"
    by simp
qed

theorem init_linear_brackets_and_weights_witness:
  "sorted_wrt (<) [0, 1, 2, 3 :: real] \<and> 2 \<le> length [0, 1, 2, 3 :: real] \<and>
   (\<exists>s. LinearInterpolation [0, 1, 2, 3] [3 / 2] = Inr s \<and> length (m_alpha s) = 1 \<and>
        m_left s ! 0 = 1 \<and> m_right s ! 0 = 2 \<and> m_alpha s ! 0 = 1 / 2)"
proof -
  have h: "sorted_wrt (<) [0, 1, 2, 3 :: real] \<and> 2 \<le> length [0, 1, 2, 3 :: real]"
    by simp
  note t = init_linear_brackets_and_weights [of "[0, 1, 2, 3]" "[3 / 2]" 0 0 0 0,
      THEN conjunct1, THEN mp, OF h]
  then obtain s where s: "LinearInterpolation [0, 1, 2, 3] [3 / 2] = Inr s"
    and l: "length (m_alpha s) = length [3 / 2 :: real]"
    and e: "\<forall>i<length [3 / 2 :: real]. \<exists>L R.
              m_left s ! i = int L \<and> m_right s ! i = int R \<and>
              L \<le> length [0, 1, 2, 3 :: real] - 2 \<and>
              (L = 0 \<or> [0, 1, 2, 3 :: real] ! L \<le> [3 / 2] ! i) \<and>
              (\<forall>k. k \<le> length [0, 1, 2, 3 :: real] - 2 \<and> [0, 1, 2, 3 :: real] ! k \<le> [3 / 2] ! i \<longrightarrow> k \<le> L) \<and>
              R = (if [3 / 2] ! i > [0, 1, 2, 3 :: real] ! L then L + 1 else L) \<and>
              m_alpha s ! i =
                (if L \<noteq> R then
                   (if [3 / 2] ! i \<le> [0, 1, 2, 3 :: real] ! R
                    then ([3 / 2] ! i - [0, 1, 2, 3] ! L) / ([0, 1, 2, 3] ! R - [0, 1, 2, 3] ! L) else 1)
                 else 0)"
    by (elim exE conjE) (rule that)
  from e obtain L R where LR: "m_left s ! 0 = int L" "m_right s ! 0 = int R" "L \<le> 2"
    "L = 0 \<or> [0, 1, 2, 3 :: real] ! L \<le> 3 / 2"
    "\<forall>k. k \<le> 2 \<and> [0, 1, 2, 3 :: real] ! k \<le> 3 / 2 \<longrightarrow> k \<le> L"
    "R = (if 3 / 2 > [0, 1, 2, 3 :: real] ! L then L + 1 else L)"
    "m_alpha s ! 0 =
                (if L \<noteq> R then
                   (if 3 / 2 \<le> [0, 1, 2, 3 :: real] ! R
                    then (3 / 2 - [0, 1, 2, 3] ! L) / ([0, 1, 2, 3] ! R - [0, 1, 2, 3] ! L) else 1)
                 else 0)"
    by fastforce
  from LR(5) have "1 \<le> L" by (elim allE [of _ 1]) simp
  moreover have "L \<noteq> 2" using LR(4) by auto
  ultimately have L: "L = 1" using LR(3) by linarith
  then have R: "R = 2" using LR(6) by simp
  have "m_alpha s ! 0 = 1 / 2" using LR(7) unfolding L R by simp
  with h s l LR(1,2) L R show ?thesis by simp
qed

subsection \<open>Self-interpolation\<close>

lemma linear_entry_self:
  assumes s: "sorted_wrt (<) input_x" and n: "2 \<le> length input_x" and k: "k < length input_x"
    and e: "linear_entry input_x (input_x ! k) = (L, R, a)"
  shows "input_x ! L + a * (input_x ! R - input_x ! L) = input_x ! k"
proof -
  note p = linear_entry_bracket [OF s n e]
  have mono: "i < j \<Longrightarrow> j < length input_x \<Longrightarrow> input_x ! i < input_x ! j" for i j
    using s by (simp add: sorted_wrt_iff_nth_less)
  have Ln: "L < length input_x" using p(1) n by linarith
  show ?thesis
  proof (cases "input_x ! k > input_x ! L")
    case True
    then have R: "R = L + 1" using p(4) by simp
    have "L < k"
    proof (rule ccontr)
      assume "\<not> L < k"
      then have "k = L \<or> k < L" by auto
      then show False using True mono [of k L] Ln by auto
    qed
    have "k \<le> L + 1"
    proof (rule ccontr)
      assume "\<not> k \<le> L + 1"
      then have "L + 1 < k" by simp
      then have "L + 1 \<le> length input_x - 2" and "input_x ! (L + 1) \<le> input_x ! k"
        using k mono [of "L + 1" k] by auto
      then show False using p(3) by auto
    qed
    with \<open>L < k\<close> have "k = R" using R by simp
    then show ?thesis using p(5) R True by simp
  next
    case False
    then have R: "R = L" using p(4) by simp
    have "input_x ! L = input_x ! k"
    proof (cases "L = 0")
      case True
      then show ?thesis using False mono [of 0 k] k by (cases "k = 0") auto
    next
      case False
      then show ?thesis using p(2) \<open>\<not> input_x ! k > input_x ! L\<close> by simp
    qed
    then show ?thesis using p(5) R by simp
  qed
qed

lemma self_interpolation_nonempty:
  assumes s: "sorted_wrt (<) input_x" and ne: "input_x \<noteq> []"
  shows "\<exists>s. LinearInterpolation input_x input_x = Inr s \<and> interpolate s input_x = Inr input_x"
proof (cases "2 \<le> length input_x")
  case False
  then obtain a where a: "input_x = [a]" using ne by (cases input_x rule: not_increasing.cases) auto
  show ?thesis
    unfolding a
    by (simp add: LinearInterpolation_def init_linear_def Interpolation_new_def resize_all_def
        resize_def trivial_case_def write_at_def interpolate_def read_at_def)
next
  case n: True
  let ?s = "\<lparr>m_left = map (\<lambda>x. int (fst (linear_entry input_x x))) input_x,
              m_right = map (\<lambda>x. int (fst (snd (linear_entry input_x x)))) input_x,
              m_alpha = map (\<lambda>x. snd (snd (linear_entry input_x x))) input_x\<rparr>"
  have r: "LinearInterpolation input_x input_x = Inr ?s"
    using s n by (simp add: LinearInterpolation_def init_linear_result)
  have a: "asserts_hold (length input_x) (int (fst (linear_entry input_x x)))
             (int (fst (snd (linear_entry input_x x)))) (snd (snd (linear_entry input_x x)))" for x
    using linear_entry_asserts [OF s n] by simp
  have "interpolate ?s input_x =
        Inr (map (\<lambda>k. input_x ! nat (m_left ?s ! k)
                + m_alpha ?s ! k * (input_x ! nat (m_right ?s ! k) - input_x ! nat (m_left ?s ! k)))
              [0..<length (m_alpha ?s)])"
  proof (rule interpolate_result)
    show "length (m_left ?s) = length (m_alpha ?s)" by simp
    show "length (m_right ?s) = length (m_alpha ?s)" by simp
    show "\<forall>k<length (m_alpha ?s). 0 \<le> m_left ?s ! k \<and> nat (m_left ?s ! k) < length input_x \<and>
                0 \<le> m_right ?s ! k \<and> nat (m_right ?s ! k) < length input_x"
    proof (intro allI impI)
      fix k assume "k < length (m_alpha ?s)"
      then have k: "k < length input_x" by simp
      show "0 \<le> m_left ?s ! k \<and> nat (m_left ?s ! k) < length input_x \<and>
                0 \<le> m_right ?s ! k \<and> nat (m_right ?s ! k) < length input_x"
        using a [of "input_x ! k"] k by (simp add: asserts_hold_def)
    qed
  qed
  also have "map (\<lambda>k. input_x ! nat (m_left ?s ! k)
                + m_alpha ?s ! k * (input_x ! nat (m_right ?s ! k) - input_x ! nat (m_left ?s ! k)))
              [0..<length (m_alpha ?s)] = input_x"
  proof (rule nth_equalityI)
    show "length (map (\<lambda>k. input_x ! nat (m_left ?s ! k)
                + m_alpha ?s ! k * (input_x ! nat (m_right ?s ! k) - input_x ! nat (m_left ?s ! k)))
              [0..<length (m_alpha ?s)]) = length input_x" by simp
  next
    fix k assume "k < length (map (\<lambda>k. input_x ! nat (m_left ?s ! k)
                + m_alpha ?s ! k * (input_x ! nat (m_right ?s ! k) - input_x ! nat (m_left ?s ! k)))
              [0..<length (m_alpha ?s)])"
    then have k: "k < length input_x" by simp
    show "map (\<lambda>k. input_x ! nat (m_left ?s ! k)
                + m_alpha ?s ! k * (input_x ! nat (m_right ?s ! k) - input_x ! nat (m_left ?s ! k)))
              [0..<length (m_alpha ?s)] ! k = input_x ! k"
    proof -
      obtain L R a where e: "linear_entry input_x (input_x ! k) = (L, R, a)"
        by (cases "linear_entry input_x (input_x ! k)")
      show ?thesis
        using k linear_entry_self [OF s n k e] by (simp add: e)
    qed
  qed
  finally show ?thesis using r by simp
qed

text \<open>
  Claim C8. Under the linear policy, interpolating a strictly increasing \<open>input_x\<close> onto itself
  returns \<open>input_x\<close>. Lemma \<open>self_interpolation_nonempty\<close> proves this, in exact arithmetic,
  for every non-empty grid. The empty grid is strictly increasing too, and there the construction writes index 0
  of three empty vectors: the trivial case of \<^verbatim>\<open>init_linear\<close> does not look at the size of the
  output grid.
\<close>

theorem self_interpolation_empty_grid: "LinearInterpolation [] [] = Inl OutOfBounds"
  by (simp add: LinearInterpolation_def init_linear_def Interpolation_new_def resize_all_def
      resize_def trivial_case_def write_at_def)

subsection \<open>The trivial case\<close>

text \<open>
  Claim C10. For \<^verbatim>\<open>input_x_size < 2\<close> each of \<^verbatim>\<open>init_linear\<close>, \<^verbatim>\<open>PiecewiseConstant::init\<close> and
  \<^verbatim>\<open>LinearPeriodic::init\<close> writes index 0 of its three vectors, and the claim is that this
  write is inside them for every output grid. With an empty output grid the vectors were just
  resized to length 0, so the write is outside: all three constructions end in \<open>OutOfBounds\<close>.
\<close>

theorem trivial_case_empty_output:
  "LinearInterpolation [0] [] = Inl OutOfBounds \<and>
   PiecewiseConstant [0] [] = Inl OutOfBounds \<and>
   LinearPeriodic [0] [] period = Inl OutOfBounds"
  by (simp add: LinearInterpolation_def init_linear_def PiecewiseConstant_def
      PiecewiseConstant_init_def LinearPeriodic_def LinearPeriodic_init_def Interpolation_new_def
      resize_all_def resize_def trivial_case_def write_at_def)

subsection \<open>The periodic policy\<close>

lemma two_le_length_nonempty: "2 \<le> length v \<Longrightarrow> v \<noteq> []"
  by (cases v) simp_all

lemma gsl_interp_bsearch_first:
  assumes s: "sorted_wrt (<) v" and n: "2 \<le> length v"
  shows "gsl_interp_bsearch v (v ! 0) 0 (length v) = 0"
proof (rule ccontr)
  let ?r = "gsl_interp_bsearch v (v ! 0) 0 (length v)"
  assume "?r \<noteq> 0"
  have sv: "sorted v" using s by (simp add: strict_sorted_iff)
  have pos: "0 < length v" using n by linarith
  note b = gsl_interp_bsearch_bracket [OF sv le_refl pos, of "v ! 0"]
  have "?r < length v" and "?r = 0 \<or> v ! ?r \<le> v ! 0" using b by blast+
  moreover have "v ! 0 < v ! ?r"
    using s \<open>?r \<noteq> 0\<close> \<open>?r < length v\<close> by (simp add: sorted_wrt_iff_nth_less)
  ultimately show False using \<open>?r \<noteq> 0\<close> by simp
qed

lemma gsl_interp_bsearch_beyond:
  assumes s: "sorted_wrt (<) v" and n: "2 \<le> length v" and x: "last v \<le> x"
  shows "gsl_interp_bsearch v x 0 (length v) = length v - 1"
proof (rule ccontr)
  let ?r = "gsl_interp_bsearch v x 0 (length v)"
  assume ne: "?r \<noteq> length v - 1"
  have sv: "sorted v" using s by (simp add: strict_sorted_iff)
  have pos: "0 < length v" using n by linarith
  note b = gsl_interp_bsearch_bracket [OF sv le_refl pos, of x]
  have "?r < length v" and all: "\<forall>k. ?r < k \<and> k < length v \<longrightarrow> x < v ! k" using b by blast+
  then have "?r < length v - 1" and "length v - 1 < length v" using ne n by auto
  then have "x < v ! (length v - 1)" using all by blast
  moreover have "v ! (length v - 1) = last v"
    using two_le_length_nonempty [OF n] by (simp add: last_conv_nth)
  ultimately show False using x by simp
qed

lemma LinearPeriodic_entry_first:
  assumes s: "sorted_wrt (<) input_x" and n: "2 \<le> length input_x"
  shows "LinearPeriodic_entry input_x (input_x ! 0) period = (0, 1, Some 0)"
  using n by (simp add: LinearPeriodic_entry_def Let_def gsl_interp_bsearch_first [OF s n])

lemma LinearPeriodic_entry_period:
  assumes s: "sorted_wrt (<) input_x" and n: "2 \<le> length input_x"
    and p: "last input_x < input_x ! 0 + period"
  shows "LinearPeriodic_entry input_x (input_x ! 0 + period) period = (length input_x - 1, 0, Some 1)"
proof -
  have ne: "input_x \<noteq> []" by (rule two_le_length_nonempty [OF n])
  then have l: "input_x ! (length input_x - Suc 0) = last input_x" by (simp add: last_conv_nth)
  have lt: "input_x ! 0 < last input_x"
    using s n unfolding l [symmetric] by (simp add: sorted_wrt_iff_nth_less)
  have S: "Suc (length input_x - Suc 0) = length input_x" using ne by simp
  have pos: "0 < period" using p lt by simp
  have b: "gsl_interp_bsearch input_x (input_x ! 0 + period) 0 (length input_x) = length input_x - 1"
    using p by (intro gsl_interp_bsearch_beyond [OF s n]) simp
  show ?thesis
    using n pos p by (simp add: LinearPeriodic_entry_def Let_def b l S)
qed

text \<open>
  With exact arithmetic the queries \<open>input_x[0]\<close> and \<open>input_x[0] + period\<close> get the weights 0 and
  1 and interpolate to the same value, the first sample.
\<close>

lemma periodic_wrap_continuity_exact:
  assumes "sorted_wrt (<) input_x" and "2 \<le> length input_x"
    and "last input_x < input_x ! 0 + period"
    and "length input_values = length input_x"
  shows "\<exists>s. LinearPeriodic input_x [input_x ! 0, input_x ! 0 + period] period = Inr s \<and>
             interpolate s input_values = Inr [input_values ! 0, input_values ! 0]"
proof -
  let ?s = "\<lparr>m_left = [0, int (length input_x - Suc 0)], m_right = [1, 0], m_alpha = [0, 1]\<rparr>"
  have ne: "input_x \<noteq> []" by (rule two_le_length_nonempty [OF assms(2)])
  have "LinearPeriodic input_x [input_x ! 0, input_x ! 0 + period] period = Inr ?s"
    using assms(2) ne
    by (simp add: Let_def LinearPeriodic_def LinearPeriodic_init_def not_increasing_iff assms(1)
        Interpolation_new_def resize_all_def resize_def LinearPeriodic_body_def
        LinearPeriodic_entry_first [OF assms(1,2)] LinearPeriodic_entry_period [OF assms(1-3)]
        store_entry_def asserts_hold_def)
  moreover have "interpolate ?s input_values = Inr [input_values ! 0, input_values ! 0]"
    using assms(2,4) ne by (simp add: interpolate_def read_at_def)
  ultimately show ?thesis by blast
qed

subsection \<open>The periodic policy in binary64\<close>

lemma floor_log2:
  assumes "2 powr of_int k \<le> \<bar>r\<bar>" and "\<bar>r\<bar> < 2 powr (of_int k + 1)"
  shows "\<lfloor>log 2 \<bar>r\<bar>\<rfloor> = k"
proof -
  have pos: "0 < \<bar>r\<bar>" using assms(1) powr_gt_zero [of 2 "of_int k"] by linarith
  have "of_int k \<le> log 2 \<bar>r\<bar>" using assms(1) pos by (simp add: le_log_iff)
  moreover have "log 2 \<bar>r\<bar> < of_int k + 1" using assms(2) pos by (simp add: log_less_iff)
  ultimately show ?thesis by (simp add: floor_eq_iff)
qed

lemma binary64_at:
  assumes "2 powr of_int k \<le> \<bar>r\<bar>" and "\<bar>r\<bar> < 2 powr (of_int k + 1)" and "- 1022 \<le> k"
    and "2 powr of_int (k - 52) = 1 / u"
  shows "binary64 r = of_int (round_even (r * u)) / u"
proof -
  have "\<lfloor>log 2 \<bar>r\<bar>\<rfloor> = k" using assms(1,2) by (rule floor_log2)
  moreover have "r \<noteq> 0" using assms(1) powr_gt_zero [of 2 "of_int k"] by auto
  moreover have "max (k - 52) (- 1074) = k - 52" using assms(3) by simp
  ultimately have "binary64 r =
      of_int (round_even (r / 2 powr of_int (k - 52))) * 2 powr of_int (k - 52)"
    by (simp only: binary64_def Let_def if_False)
  then show ?thesis unfolding assms(4) by simp
qed

lemma binary64_1_2:
  assumes "1 \<le> \<bar>r\<bar>" and "\<bar>r\<bar> < 2"
  shows "binary64 r = of_int (round_even (r * 4503599627370496)) / 4503599627370496"
  by (rule binary64_at [where k = 0])
     (use assms in \<open>simp_all add: powr_minus powr_numeral divide_simps\<close>)

lemma binary64_2_4:
  assumes "2 \<le> \<bar>r\<bar>" and "\<bar>r\<bar> < 4"
  shows "binary64 r = of_int (round_even (r * 2251799813685248)) / 2251799813685248"
  by (rule binary64_at [where k = 1])
     (use assms in \<open>simp_all add: powr_minus powr_numeral divide_simps\<close>)

lemma binary64_quarter_half:
  assumes "1 / 4 \<le> \<bar>r\<bar>" and "\<bar>r\<bar> < 1 / 2"
  shows "binary64 r = of_int (round_even (r * 18014398509481984)) / 18014398509481984"
  by (rule binary64_at [where k = "- 2"])
     (use assms in \<open>simp_all add: powr_minus powr_numeral divide_simps\<close>)

lemma LinearPeriodic_fl_exact:
  "LinearPeriodic_entry_fl (\<lambda>r. r) input_x x period = LinearPeriodic_entry input_x x period"
  "LinearPeriodic_fl (\<lambda>r. r) input_x output_x period = LinearPeriodic input_x output_x period"
proof -
  show e: "LinearPeriodic_entry_fl (\<lambda>r. r) input_x x period = LinearPeriodic_entry input_x x period"
    for x
    by (simp add: LinearPeriodic_entry_fl_def LinearPeriodic_entry_def)
  have body: "(\<lambda>i s. case LinearPeriodic_entry_fl (\<lambda>r. r) input_x (output_x ! i) period of
                      (L, R, None) \<Rightarrow> Inl AssertionFailure
                    | (L, R, Some alpha) \<Rightarrow> store_entry (length input_x) i (L, R, alpha) s) =
        LinearPeriodic_body input_x output_x period"
    by (simp add: fun_eq_iff LinearPeriodic_body_def e)
  show "LinearPeriodic_fl (\<lambda>r. r) input_x output_x period =
             LinearPeriodic input_x output_x period"
    unfolding LinearPeriodic_fl_def LinearPeriodic_def LinearPeriodic_init_def body ..
qed

text \<open>
  Claim C7. Under the periodic-linear policy with period \<open>p\<close>, for a strictly increasing
  \<open>input_x\<close> with at least two points and \<open>input_x[last] < input_x[0] + p\<close>, the query coordinates
  \<open>input_x[0]\<close> and \<open>input_x[0] + p\<close> interpolate to the same value. The weight of the second
  query is \<open>(x - x_l) / ((period - x_l) + x0)\<close>, which is 1 only if the two roundings of the
  divisor cancel. On the grid \<open>[-1.0, -0.3]\<close> with period 2 (\<open>-0.3\<close> being the double nearest to
  it) the query \<open>-1.0 + 2.0 = 1.0\<close> gets \<open>x - x_l = 1.3\<close> and the divisor \<open>1.2999999999999998\<close>:
  the weight is \<open>1 + 2^(-52)\<close>, the assertion \<^verbatim>\<open>alpha <= 1.0\<close> of the loop fails, and no
  interpolator is constructed.
\<close>

theorem periodic_wrap_weight_binary64:
  "binary64 (- (3 / 10)) = - (5404319552844595 / 18014398509481984) \<and>
   sorted_wrt (<) [- 1, - (5404319552844595 / 18014398509481984) :: real] \<and>
   last [- 1, - (5404319552844595 / 18014398509481984) :: real]
     < [- 1, - (5404319552844595 / 18014398509481984)] ! 0 + 2 \<and>
   binary64 ([- 1, - (5404319552844595 / 18014398509481984)] ! 0 + 2) = 1 \<and>
   LinearPeriodic_entry_fl binary64 [- 1, - (5404319552844595 / 18014398509481984)] 1 2 =
     (1, 0, Some (4503599627370497 / 4503599627370496)) \<and>
   \<not> asserts_hold 2 1 0 (4503599627370497 / 4503599627370496) \<and>
   LinearPeriodic_fl binary64 [- 1, - (5404319552844595 / 18014398509481984)] [- 1, 1] 2 =
     Inl AssertionFailure"
proof -
  have d: "binary64 (- (3 / 10)) = - (5404319552844595 / 18014398509481984)"
    by (subst binary64_quarter_half) (simp_all add: round_even_def)
  have q: "binary64 1 = 1"
    by (subst binary64_1_2) (simp_all add: round_even_def)
  have z: "binary64 0 = 0" by (simp add: binary64_def)
  have n: "binary64 (23418718062326579 / 18014398509481984) =
           5854679515581645 / 4503599627370496" \<comment> \<open>\<open>x - x_l\<close>, about 1.3\<close>
    by (subst binary64_1_2) (simp_all add: round_even_def)
  have i: "binary64 (41433116571808563 / 18014398509481984) =
           2589569785738035 / 1125899906842624" \<comment> \<open>\<open>period - x_l\<close>, about 2.3\<close>
    by (subst binary64_2_4) (simp_all add: round_even_def)
  have dx: "binary64 (1463669878895411 / 1125899906842624) =
            1463669878895411 / 1125899906842624" \<comment> \<open>\<open>dx\<close>, just below 1.3\<close>
    by (subst binary64_1_2) (simp_all add: round_even_def)
  have a: "binary64 (5854679515581645 / 5854679515581644) =
           4503599627370497 / 4503599627370496" \<comment> \<open>the quotient of the two\<close>
    by (subst binary64_1_2) (simp_all add: round_even_def)
  have b: "gsl_interp_bsearch [- 1, - (5404319552844595 / 18014398509481984)] 1 0 (Suc (Suc 0)) = Suc 0"
    "gsl_interp_bsearch [- 1, - (5404319552844595 / 18014398509481984)] (- 1) 0 (Suc (Suc 0)) = 0"
    by (simp_all add: gsl_interp_bsearch.simps)
  have e1: "LinearPeriodic_entry_fl binary64 [- 1, - (5404319552844595 / 18014398509481984)] 1 2 =
     (1, 0, Some (4503599627370497 / 4503599627370496))"
    by (simp add: LinearPeriodic_entry_fl_def Let_def b n i dx a)
  have e0: "LinearPeriodic_entry_fl binary64 [- 1, - (5404319552844595 / 18014398509481984)] (- 1) 2 =
     (0, 1, Some 0)"
    by (simp add: LinearPeriodic_entry_fl_def Let_def b z)
  have r: "LinearPeriodic_fl binary64 [- 1, - (5404319552844595 / 18014398509481984)] [- 1, 1] 2 =
     Inl AssertionFailure"
    by (simp add: LinearPeriodic_fl_def Let_def e0 e1 Interpolation_new_def resize_all_def resize_def
        store_entry_def asserts_hold_def)
  from d q e1 r show ?thesis by (simp add: asserts_hold_def)
qed

subsection \<open>Indices and weights of the four policies\<close>

lemma linear_policy_postcondition:
  assumes "sorted_wrt (<) input_x" and "2 \<le> length input_x"
  shows "\<exists>s. LinearInterpolation input_x output_x = Inr s \<and>
             length (m_left s) = length output_x \<and> length (m_right s) = length output_x \<and>
             length (m_alpha s) = length output_x \<and>
             (\<forall>i<length output_x.
                asserts_hold (length input_x) (m_left s ! i) (m_right s ! i) (m_alpha s ! i))"
  using linear_entry_asserts [OF assms]
  by (simp add: LinearInterpolation_def init_linear_result [OF assms])

lemma PiecewiseConstant_entry_asserts:
  assumes "sorted_wrt (<) input_x" and "2 \<le> length input_x"
  shows "asserts_hold (length input_x) (int (fst (PiecewiseConstant_entry input_x x)))
           (int (fst (snd (PiecewiseConstant_entry input_x x))))
           (snd (snd (PiecewiseConstant_entry input_x x)))"
proof -
  have s: "sorted input_x" using assms(1) by (simp add: strict_sorted_iff)
  have "0 < length input_x - 1" using assms(2) by linarith
  from gsl_interp_bsearch_bracket [OF s _ this, of x]
  have "gsl_interp_bsearch input_x x 0 (length input_x - 1) < length input_x - 1" by simp
  then show ?thesis
    by (simp add: PiecewiseConstant_entry_def Let_def asserts_hold_def)
qed

lemma piecewise_constant_policy_postcondition:
  assumes "sorted_wrt (<) input_x" and "2 \<le> length input_x"
  shows "\<exists>s. PiecewiseConstant input_x output_x = Inr s \<and>
             length (m_left s) = length output_x \<and> length (m_right s) = length output_x \<and>
             length (m_alpha s) = length output_x \<and>
             (\<forall>i<length output_x.
                asserts_hold (length input_x) (m_left s ! i) (m_right s ! i) (m_alpha s ! i) \<and>
                m_left s ! i = m_right s ! i \<and> m_alpha s ! i = 0)"
proof -
  have ok: "\<forall>i<length output_x. asserts_hold (length input_x)
              (int (fst (PiecewiseConstant_entry input_x (output_x ! i))))
              (int (fst (snd (PiecewiseConstant_entry input_x (output_x ! i)))))
              (snd (snd (PiecewiseConstant_entry input_x (output_x ! i))))"
    using PiecewiseConstant_entry_asserts [OF assms] by simp
  have r: "PiecewiseConstant input_x output_x =
        Inr \<lparr>m_left = map (\<lambda>i. int (fst (PiecewiseConstant_entry input_x (output_x ! i))))
                       [0..<length output_x],
             m_right = map (\<lambda>i. int (fst (snd (PiecewiseConstant_entry input_x (output_x ! i)))))
                       [0..<length output_x],
             m_alpha = map (\<lambda>i. snd (snd (PiecewiseConstant_entry input_x (output_x ! i))))
                       [0..<length output_x]\<rparr>"
    using assms for_loop_store_entry [OF ok, of "resize_all (length output_x) Interpolation_new"]
    by (simp add: PiecewiseConstant_def PiecewiseConstant_init_def Let_def not_increasing_iff
        resize_all_def)
  show ?thesis
    unfolding r using ok by (simp add: PiecewiseConstant_entry_def Let_def)
qed

lemma snap_loop:
  "k \<le> length (m_alpha s) \<Longrightarrow>
   for_loop [0..<k] (\<lambda>j t. Inr (t\<lparr>m_alpha := (m_alpha t)[j := f (m_alpha t ! j)]\<rparr>)) s =
   Inr (s\<lparr>m_alpha := map f (take k (m_alpha s)) @ drop k (m_alpha s)\<rparr>)"
proof (induction k)
  case 0
  show ?case by simp
next
  case (Suc k)
  then have k: "k < length (m_alpha s)" by simp
  have split: "[0..<Suc k] = [0..<k] @ [k]" by simp
  have IH: "for_loop [0..<k] (\<lambda>j t. Inr (t\<lparr>m_alpha := (m_alpha t)[j := f (m_alpha t ! j)]\<rparr>)) s =
   Inr (s\<lparr>m_alpha := map f (take k (m_alpha s)) @ drop k (m_alpha s)\<rparr>)"
    using Suc.IH k by simp
  have "(map f (take k v) @ drop k v)[k := f ((map f (take k v) @ drop k v) ! k)] =
        map f (take (Suc k) v) @ drop (Suc k) v" if "k < length v" for v
    using that
    by (simp add: list_update_append nth_append take_Suc_conv_app_nth Cons_nth_drop_Suc [symmetric])
  from this [OF k] show ?case
    unfolding split for_loop_append IH by simp
qed

lemma nearest_neighbor_policy_postcondition:
  assumes "sorted_wrt (<) input_x" and "2 \<le> length input_x"
  shows "\<exists>s. NearestNeighbor input_x output_x = Inr s \<and>
             length (m_left s) = length output_x \<and> length (m_right s) = length output_x \<and>
             length (m_alpha s) = length output_x \<and>
             (\<forall>i<length output_x.
                asserts_hold (length input_x) (m_left s ! i) (m_right s ! i) (m_alpha s ! i) \<and>
                (m_alpha s ! i = 0 \<or> m_alpha s ! i = 1))"
proof -
  let ?s = "\<lparr>m_left = map (\<lambda>x. int (fst (linear_entry input_x x))) output_x,
              m_right = map (\<lambda>x. int (fst (snd (linear_entry input_x x)))) output_x,
              m_alpha = map (\<lambda>x. snd (snd (linear_entry input_x x))) output_x\<rparr>"
  have "NearestNeighbor input_x output_x =
        Inr (?s\<lparr>m_alpha := map (\<lambda>a. if a > 1 / 2 then 1 else 0) (m_alpha ?s)\<rparr>)"
    using snap_loop [of "length (m_alpha ?s)" ?s "\<lambda>a. if a > 1 / 2 then 1 else 0"]
    by (simp add: NearestNeighbor_def NearestNeighbor_init_def init_linear_result [OF assms])
  moreover have "asserts_hold (length input_x) (int (fst (linear_entry input_x x)))
             (int (fst (snd (linear_entry input_x x)))) (snd (snd (linear_entry input_x x)))" for x
    using linear_entry_asserts [OF assms] by simp
  ultimately show ?thesis
    by (simp add: asserts_hold_def)
qed

lemma for_loop_cong:
  "(\<And>k s. k \<in> set ks \<Longrightarrow> f k s = g k s) \<Longrightarrow> for_loop ks f s = for_loop ks g s"
  by (induction ks arbitrary: s) (auto split: sum.splits)

lemma LinearPeriodic_entry_in_window:
  assumes s: "sorted_wrt (<) input_x" and n: "2 \<le> length input_x"
    and p: "last input_x < input_x ! 0 + period"
    and w: "last input_x - period \<le> x" "x \<le> input_x ! 0 + period"
  shows "\<exists>L R a. LinearPeriodic_entry input_x x period = (L, R, Some a) \<and>
                 asserts_hold (length input_x) (int L) (int R) a"
proof -
  have ne: "input_x \<noteq> []" by (rule two_le_length_nonempty [OF n])
  then have l: "input_x ! (length input_x - Suc 0) = last input_x" by (simp add: last_conv_nth)
  have pos: "0 < length input_x" using n by linarith
  let ?dx = "period - last input_x + input_x ! 0"
  have dx: "0 < ?dx" using p by simp
  show ?thesis
  proof (cases "x < input_x ! 0")
    case True
    have e: "LinearPeriodic_entry input_x x period =
             (length input_x - 1, 0, Some (1 - (input_x ! 0 - x) / ?dx))"
      using True n dx by (simp add: LinearPeriodic_entry_def Let_def l)
    have "0 \<le> (input_x ! 0 - x) / ?dx" using True dx by simp
    moreover have "(input_x ! 0 - x) / ?dx \<le> 1" using w(1) dx by (simp add: divide_le_eq_1)
    ultimately show ?thesis
      unfolding e using pos by (simp add: asserts_hold_def)
  next
    case False
    let ?L = "gsl_interp_bsearch input_x x 0 (length input_x)"
    have sv: "sorted input_x" using s by (simp add: strict_sorted_iff)
    note b = gsl_interp_bsearch_bracket [OF sv le_refl pos, of x]
    have L: "?L < length input_x" and below: "input_x ! ?L \<le> x"
      and above: "\<forall>k. ?L < k \<and> k < length input_x \<longrightarrow> x < input_x ! k"
      using b False by auto
    show ?thesis
    proof (cases "?L + 1 < length input_x")
      case True
      have lt: "input_x ! ?L < input_x ! (?L + 1)"
        using s True by (intro sorted_wrt_nth_less [where P = "(<)"]) simp_all
      have x: "x < input_x ! (?L + 1)" using above True by simp
      have e: "LinearPeriodic_entry input_x x period =
               (?L, ?L + 1, Some ((x - input_x ! ?L) / (input_x ! (?L + 1) - input_x ! ?L)))"
        using False True by (simp add: LinearPeriodic_entry_def Let_def)
      have "0 \<le> (x - input_x ! ?L) / (input_x ! (?L + 1) - input_x ! ?L)"
        using below lt by simp
      moreover have "(x - input_x ! ?L) / (input_x ! (?L + 1) - input_x ! ?L) \<le> 1"
        using x lt by (simp add: divide_le_eq_1)
      ultimately show ?thesis
        unfolding e using True by (simp add: asserts_hold_def)
    next
      case last: False
      then have Leq: "?L = length input_x - Suc 0" using L by linarith
      have x0: "input_x ! 0 < last input_x"
        using s n unfolding l [symmetric] by (intro sorted_wrt_nth_less [where P = "(<)"]) simp_all
      have xl: "last input_x \<le> x" using below Leq l by simp
      have e: "LinearPeriodic_entry input_x x period =
               (length input_x - 1, 0, Some ((x - last input_x) / ?dx))"
        using False last xl x0 dx Leq l n by (simp add: LinearPeriodic_entry_def Let_def)
      have "0 \<le> (x - last input_x) / ?dx" using xl dx by simp
      moreover have "(x - last input_x) / ?dx \<le> 1" using w(2) dx by (simp add: divide_le_eq_1)
      ultimately show ?thesis
        unfolding e using pos by (simp add: asserts_hold_def)
    qed
  qed
qed

lemma periodic_policy_postcondition_in_window:
  assumes s: "sorted_wrt (<) input_x" and n: "2 \<le> length input_x"
    and p: "last input_x < input_x ! 0 + period"
    and w: "\<forall>x\<in>set output_x. last input_x - period \<le> x \<and> x \<le> input_x ! 0 + period"
  shows "\<exists>s. LinearPeriodic input_x output_x period = Inr s \<and>
             length (m_left s) = length output_x \<and> length (m_right s) = length output_x \<and>
             length (m_alpha s) = length output_x \<and>
             (\<forall>i<length output_x.
                asserts_hold (length input_x) (m_left s ! i) (m_right s ! i) (m_alpha s ! i))"
proof -
  define e where "e = (\<lambda>i. case LinearPeriodic_entry input_x (output_x ! i) period of
                             (L, R, a) \<Rightarrow> (L, R, the a))"
  have each: "LinearPeriodic_body input_x output_x period i t = store_entry (length input_x) i (e i) t \<and>
              asserts_hold (length input_x) (int (fst (e i))) (int (fst (snd (e i)))) (snd (snd (e i)))"
    if "i < length output_x" for i t
  proof -
    have "last input_x - period \<le> output_x ! i" "output_x ! i \<le> input_x ! 0 + period"
      using w that by auto
    from LinearPeriodic_entry_in_window [OF s n p this]
    obtain L R a where "LinearPeriodic_entry input_x (output_x ! i) period = (L, R, Some a)"
      "asserts_hold (length input_x) (int L) (int R) a" by blast
    then show ?thesis by (simp add: LinearPeriodic_body_def e_def)
  qed
  have ok: "\<forall>i<length output_x. asserts_hold (length input_x) (int (fst (e i)))
              (int (fst (snd (e i)))) (snd (snd (e i)))"
    using each by blast
  have "for_loop [0..<length output_x] (LinearPeriodic_body input_x output_x period)
          (resize_all (length output_x) Interpolation_new) =
        for_loop [0..<length output_x] (\<lambda>i. store_entry (length input_x) i (e i))
          (resize_all (length output_x) Interpolation_new)"
    by (rule for_loop_cong) (use each in simp)
  also have "\<dots> = Inr \<lparr>m_left = map (\<lambda>i. int (fst (e i))) [0..<length output_x],
              m_right = map (\<lambda>i. int (fst (snd (e i)))) [0..<length output_x],
              m_alpha = map (\<lambda>i. snd (snd (e i))) [0..<length output_x]\<rparr>"
    by (rule for_loop_store_entry [OF ok]) (simp_all add: resize_all_def)
  finally have "LinearPeriodic input_x output_x period =
        Inr \<lparr>m_left = map (\<lambda>i. int (fst (e i))) [0..<length output_x],
              m_right = map (\<lambda>i. int (fst (snd (e i)))) [0..<length output_x],
              m_alpha = map (\<lambda>i. snd (snd (e i))) [0..<length output_x]\<rparr>"
    using s n by (simp add: LinearPeriodic_def LinearPeriodic_init_def Let_def not_increasing_iff)
  then show ?thesis using ok by simp
qed

text \<open>
  Claim C2. After construction on a strictly increasing \<open>input_x\<close> with at least two points and
  any query values, every policy leaves valid indices and weights in \<open>[0, 1]\<close>, that is, the
  assertions of the code hold. The lemmas above prove this for the linear, nearest-neighbour and
  piecewise-constant policies, and, in exact arithmetic, for the periodic policy when every query
  lies between \<open>input_x[last] - period\<close> and \<open>input_x[0] + period\<close>. The loop of \<^verbatim>\<open>LinearPeriodic::init\<close>
  asserts the same for every query, but does not establish it: for \<open>input_x = [0, 1]\<close>, period 2
  and the query 5, two periods beyond the grid, it computes the bracket \<open>(1, 0)\<close> and the
  weight 4, and its assertion on the weight fails.
\<close>

theorem periodic_assertion_fails:
  "LinearPeriodic_entry [0, 1] 5 2 = (1, 0, Some 4) \<and>
   \<not> asserts_hold 2 1 0 4 \<and>
   LinearPeriodic [0, 1] [5] 2 = Inl AssertionFailure"
  by (simp add: LinearPeriodic_def LinearPeriodic_init_def Interpolation_new_def resize_all_def
      resize_def store_entry_def LinearPeriodic_body_def LinearPeriodic_entry_def asserts_hold_def
      Let_def gsl_interp_bsearch.simps)

section \<open>Properties of the column field store\<close>

subsection \<open>Reading, writing and the bracket scan\<close>

lemma read_at_in [simp]: "k < length v \<Longrightarrow> read_at v k = Inr (v ! k)"
  by (simp add: read_at_def)

lemma write_at_in [simp]: "k < length v \<Longrightarrow> write_at v k a = Inr (v[k := a])"
  by (simp add: write_at_def)

lemma increasing_nth_mono:
  "sorted_wrt (<) v \<Longrightarrow> a \<le> b \<Longrightarrow> b < length v \<Longrightarrow> v ! a \<le> (v ! b :: real)"
  using sorted_nth_mono [of v a b] by (simp add: strict_sorted_iff)

lemma increasing_nth_less:
  "sorted_wrt (<) v \<Longrightarrow> a < b \<Longrightarrow> b < length v \<Longrightarrow> v ! a < (v ! b :: real)"
  by (rule sorted_wrt_nth_less)

lemma bracket_scan_bracket:
  assumes "sorted_wrt (<) levels" and "m0 + 1 < length levels"
    and "z \<le> levels ! (length levels - 1)" and "m0 = 0 \<or> levels ! m0 < z"
  shows "\<exists>m. bracket_scan levels z m0 = Inr m \<and> m0 \<le> m \<and> m + 1 < length levels \<and>
             z \<le> levels ! (m + 1) \<and> (m = 0 \<or> levels ! m < z)"
  using assms
proof (induction levels z m0 rule: bracket_scan.induct)
  case (1 levels z mcurr)
  show ?case
  proof (cases "levels ! (mcurr + 1) < z")
    case True
    have "mcurr + 1 \<noteq> length levels - 1" using True "1.prems"(3) by auto
    then have nxt: "mcurr + 1 + 1 < length levels" using "1.prems"(2) by linarith
    have "\<exists>m. bracket_scan levels z (mcurr + 1) = Inr m \<and> mcurr + 1 \<le> m \<and> m + 1 < length levels \<and>
             z \<le> levels ! (m + 1) \<and> (m = 0 \<or> levels ! m < z)"
      using "1.IH" [OF "1.prems"(2) True "1.prems"(1) nxt "1.prems"(3)] True by simp
    moreover have "bracket_scan levels z mcurr = bracket_scan levels z (mcurr + 1)"
      using True "1.prems"(2) by (subst bracket_scan.simps) simp
    ultimately show ?thesis by auto
  next
    case False
    have "bracket_scan levels z mcurr = Inr mcurr"
      using False "1.prems"(2) by (subst bracket_scan.simps) simp
    then show ?thesis using False "1.prems" by auto
  qed
qed

lemma bracket_unique:
  assumes "sorted_wrt (<) (levels :: real list)"
    and "m + 1 < length levels" "z \<le> levels ! (m + 1)" "m = 0 \<or> levels ! m < z"
    and "m' + 1 < length levels" "z \<le> levels ! (m' + 1)" "m' = 0 \<or> levels ! m' < z"
  shows "m = m'"
proof -
  have mono: "a \<le> b \<Longrightarrow> b < length levels \<Longrightarrow> levels ! a \<le> levels ! b" for a b
    using assms(1) by (rule increasing_nth_mono)
  have False if "a + 1 < length levels" "z \<le> levels ! (a + 1)" "b + 1 < length levels"
    "b = 0 \<or> levels ! b < z" "a < b" for a b
  proof -
    have "levels ! (a + 1) \<le> levels ! b" using that by (intro mono) auto
    then show False using that by auto
  qed
  from this [of m m'] this [of m' m] assms show ?thesis
    by (meson linorder_neqE_nat)
qed

subsection \<open>Value at a level\<close>

text \<open>
  Claim C3. On an ice field whose levels are strictly increasing and span \<open>[0, Lz]\<close>,
  \<^verbatim>\<open>getValZ\<close> fails for \<open>z < -1e-6\<close> and for \<open>z > Lz + 1e-6\<close> (it ends the run); otherwise it returns
  the top stored value for \<open>z \<ge> levels[Mz-1]\<close>, the bottom stored value for \<open>z \<le> 0\<close>, and between
  them the linear interpolant of the two stored levels that enclose \<open>z\<close>. With levels
  \<open>[0,10,20,30]\<close> and column \<open>[100,200,300,400]\<close>: the value at 25 is 350, level 35 fails, and
  \<^verbatim>\<open>getValColumnPL\<close> at \<open>[0, 25, 40]\<close> returns \<open>[100, 350, 400]\<close>.
\<close>

theorem getValZ_spec:
  "(ice_levels_ok (grid v) \<and> length (array v i j) = Mz (grid v) \<longrightarrow>
      (z < - (1 / 1000000) \<or> z > Lz (grid v) + 1 / 1000000 \<longrightarrow> getValZ v i j z = Inl PetscEnd) \<and>
      (- (1 / 1000000) \<le> z \<and> z \<le> Lz (grid v) + 1 / 1000000 \<longrightarrow>
         (z \<ge> zlevels (grid v) ! (Mz (grid v) - 1) \<longrightarrow>
            getValZ v i j z = Inr (array v i j ! (Mz (grid v) - 1))) \<and>
         (z \<le> 0 \<longrightarrow> getValZ v i j z = Inr (array v i j ! 0)) \<and>
         (0 < z \<and> z < zlevels (grid v) ! (Mz (grid v) - 1) \<longrightarrow>
            (\<exists>m. m + 1 < Mz (grid v) \<and> zlevels (grid v) ! m < z \<and> z \<le> zlevels (grid v) ! (m + 1) \<and>
                 getValZ v i j z =
                   Inr (array v i j ! m +
                        (z - zlevels (grid v) ! m) / (zlevels (grid v) ! (m + 1) - zlevels (grid v) ! m)
                          * (array v i j ! (m + 1) - array v i j ! m)))))) \<and>
   getValZ example_field 0 0 25 = Inr 350 \<and>
   getValZ example_field 0 0 35 = Inl PetscEnd \<and>
   getValColumnPL example_field 0 0 [0, 25, 40] = Inr [100, 350, 400]"
proof (intro conjI impI)
  show "getValZ example_field 0 0 25 = Inr 350"
    by (simp add: getValZ_def example_field_def example_grid_def isLegalLevel_def Let_def
        bracket_scan.simps)
  show "getValZ example_field 0 0 35 = Inl PetscEnd"
    by (simp add: getValZ_def example_field_def example_grid_def isLegalLevel_def Let_def)
  show "getValColumnPL example_field 0 0 [0, 25, 40] = Inr [100, 350, 400]"
    by (simp add: getValColumnPL_def example_field_def example_grid_def isLegalLevel_def
        bracket_scan.simps)
next
  assume "ice_levels_ok (grid v) \<and> length (array v i j) = Mz (grid v)"
    and "z < - (1 / 1000000) \<or> z > Lz (grid v) + 1 / 1000000"
  then show "getValZ v i j z = Inl PetscEnd"
    by (auto simp: getValZ_def isLegalLevel_def Let_def)
next
  assume ok: "ice_levels_ok (grid v) \<and> length (array v i j) = Mz (grid v)"
    and legal: "- (1 / 1000000) \<le> z \<and> z \<le> Lz (grid v) + 1 / 1000000"
    and z: "z \<ge> zlevels (grid v) ! (Mz (grid v) - 1)"
  then show "getValZ v i j z = Inr (array v i j ! (Mz (grid v) - 1))"
    by (auto simp: getValZ_def isLegalLevel_def Let_def ice_levels_ok_def)
next
  assume ok: "ice_levels_ok (grid v) \<and> length (array v i j) = Mz (grid v)"
    and legal: "- (1 / 1000000) \<le> z \<and> z \<le> Lz (grid v) + 1 / 1000000"
    and z: "z \<le> 0"
  have mono: "zlevels (grid v) ! 0 \<le> zlevels (grid v) ! (Mz (grid v) - 1)"
    using ok by (intro increasing_nth_mono) (auto simp: ice_levels_ok_def)
  show "getValZ v i j z = Inr (array v i j ! 0)"
  proof (cases "z \<ge> Lz (grid v)")
    case True
    then have "Lz (grid v) = 0" using z mono ok by (simp add: ice_levels_ok_def)
    have "Mz (grid v) - 1 = 0"
    proof (rule ccontr)
      assume "Mz (grid v) - 1 \<noteq> 0"
      then have "zlevels (grid v) ! 0 < zlevels (grid v) ! (Mz (grid v) - 1)"
        using ok by (intro increasing_nth_less) (auto simp: ice_levels_ok_def)
      then show False using ok \<open>Lz (grid v) = 0\<close> by (simp add: ice_levels_ok_def)
    qed
    then show ?thesis using True ok legal by (simp add: getValZ_def isLegalLevel_def Let_def ice_levels_ok_def)
  next
    case False
    then show ?thesis using z ok legal by (simp add: getValZ_def isLegalLevel_def Let_def ice_levels_ok_def)
  qed
next
  assume ok: "ice_levels_ok (grid v) \<and> length (array v i j) = Mz (grid v)"
    and legal: "- (1 / 1000000) \<le> z \<and> z \<le> Lz (grid v) + 1 / 1000000"
    and z: "0 < z \<and> z < zlevels (grid v) ! (Mz (grid v) - 1)"
  let ?l = "zlevels (grid v)"
  have M2: "0 + 1 < length ?l"
  proof (rule ccontr)
    assume "\<not> 0 + 1 < length ?l"
    then have "Mz (grid v) - 1 = 0" using ok by (simp add: ice_levels_ok_def)
    then show False using z ok by (simp add: ice_levels_ok_def)
  qed
  obtain m where m: "bracket_scan ?l z 0 = Inr m" "m + 1 < length ?l" "z \<le> ?l ! (m + 1)"
    "m = 0 \<or> ?l ! m < z"
    using bracket_scan_bracket [of ?l 0 z] M2 ok z by (auto simp: ice_levels_ok_def)
  have below: "?l ! m < z" using m(4) z ok by (auto simp: ice_levels_ok_def)
  have "getValZ v i j z = Inr (array v i j ! m + (z - ?l ! m) / (?l ! (m + 1) - ?l ! m)
                          * (array v i j ! (m + 1) - array v i j ! m))"
    using m ok legal z by (simp add: getValZ_def isLegalLevel_def Let_def ice_levels_ok_def)
  then show "\<exists>m. m + 1 < Mz (grid v) \<and> ?l ! m < z \<and> z \<le> ?l ! (m + 1) \<and>
                 getValZ v i j z =
                   Inr (array v i j ! m + (z - ?l ! m) / (?l ! (m + 1) - ?l ! m)
                          * (array v i j ! (m + 1) - array v i j ! m))"
    using m below ok by (intro exI [of _ m]) (simp add: ice_levels_ok_def)
qed

theorem getValZ_spec_witness:
  "ice_levels_ok (grid example_field) \<and>
   length (array example_field 0 0) = Mz (grid example_field) \<and>
   - (1 / 1000000) \<le> (25 :: real) \<and> 25 \<le> Lz (grid example_field) + 1 / 1000000 \<and>
   0 < (25 :: real) \<and> 25 < zlevels (grid example_field) ! (Mz (grid example_field) - 1) \<and>
   (\<exists>m. m + 1 < Mz (grid example_field) \<and> zlevels (grid example_field) ! m < 25 \<and>
        25 \<le> zlevels (grid example_field) ! (m + 1) \<and>
        getValZ example_field 0 0 25 =
          Inr (array example_field 0 0 ! m +
               (25 - zlevels (grid example_field) ! m)
                 / (zlevels (grid example_field) ! (m + 1) - zlevels (grid example_field) ! m)
                 * (array example_field 0 0 ! (m + 1) - array example_field 0 0 ! m)))"
proof -
  have ok: "ice_levels_ok (grid example_field) \<and>
            length (array example_field 0 0) = Mz (grid example_field)"
    by (simp add: ice_levels_ok_def example_field_def example_grid_def)
  have legal: "- (1 / 1000000) \<le> (25 :: real) \<and> 25 \<le> Lz (grid example_field) + 1 / 1000000"
    by (simp add: example_field_def example_grid_def)
  have inside: "0 < (25 :: real) \<and> 25 < zlevels (grid example_field) ! (Mz (grid example_field) - 1)"
    by (simp add: example_field_def example_grid_def)
  note t = getValZ_spec [of example_field 0 0 25, THEN conjunct1, THEN mp, OF ok,
      THEN conjunct2, THEN mp, OF legal, THEN conjunct2, THEN conjunct2, THEN mp, OF inside]
  from ok legal inside t show ?thesis by (intro conjI) (elim conjE, assumption)+
qed

subsection \<open>Local quadratic interpolation\<close>

lemma newton_form_is_quadratic:
  fixes z0 z1 z2 :: real
  assumes d: "z0 < z1" "z1 < z2"
    and p: "quadratic a b c z0 = f0" "quadratic a b c z1 = f1" "quadratic a b c z2 = f2"
  shows "(let dz1 = z1 - z0; dz2 = z2 - z0; D1 = (f1 - f0) / dz1; D2 = (f2 - f0) / dz2;
              cc = (D2 - D1) / (dz2 - dz1); bb = D1 - cc * dz1; s = z - z0
          in f0 + s * (bb + cc * s)) = quadratic a b c z"
proof -
  have D1: "(f1 - f0) / (z1 - z0) = b + c * (z1 + z0)"
    using d p by (simp add: quadratic_def field_simps)
  have D2: "(f2 - f0) / (z2 - z0) = b + c * (z2 + z0)"
    using d p by (simp add: quadratic_def field_simps)
  have cc: "((b + c * (z2 + z0)) - (b + c * (z1 + z0))) / ((z2 - z0) - (z1 - z0)) = c"
    using d by (simp add: field_simps)
  show ?thesis
    unfolding Let_def D1 D2 cc using p(1) by (simp add: quadratic_def algebra_simps)
qed

lemma quadratic_exists:
  fixes z0 z1 z2 :: real
  assumes d: "z0 < z1" "z1 < z2"
  shows "\<exists>a b c. quadratic a b c z0 = f0 \<and> quadratic a b c z1 = f1 \<and> quadratic a b c z2 = f2"
proof -
  define D1 where "D1 = (f1 - f0) / (z1 - z0)"
  define D2 where "D2 = (f2 - f0) / (z2 - z0)"
  define c where "c = (D2 - D1) / (z2 - z1)"
  define b where "b = D1 - c * (z1 + z0)"
  define a where "a = f0 - b * z0 - c * z0 * z0"
  have 0: "quadratic a b c z0 = f0" by (simp add: quadratic_def a_def)
  have "quadratic a b c z1 - f0 = (z1 - z0) * (b + c * (z1 + z0))"
    by (simp add: quadratic_def a_def algebra_simps)
  also have "\<dots> = f1 - f0" using d by (simp add: b_def D1_def)
  finally have 1: "quadratic a b c z1 = f1" by simp
  have "quadratic a b c z2 - f0 = (z2 - z0) * (b + c * (z2 + z0))"
    by (simp add: quadratic_def a_def algebra_simps)
  also have "b + c * (z2 + z0) = D1 + c * (z2 - z1)" by (simp add: b_def algebra_simps)
  also have "\<dots> = D2" using d by (simp add: c_def)
  also have "(z2 - z0) * D2 = f2 - f0" using d by (simp add: D2_def)
  finally have 2: "quadratic a b c z2 = f2" by simp
  from 0 1 2 show ?thesis by blast
qed

lemma QUAD_value_above:
  assumes "z > zlevels g ! (Mz g - 1)"
  shows "QUAD_value g arr z (arr ! (Mz g - 1))"
  using assms by (simp add: QUAD_value_def)

lemma QUAD_value_bracket:
  assumes g: "length (zlevels g) = Mz g" "sorted_wrt (<) (zlevels g)"
    and z: "z \<le> zlevels g ! (Mz g - 1)" and m: "bracket g m z"
    and val: "val =
      (if m + 2 < Mz g then
         (let z0 = zlevels g ! m; dz1 = zlevels g ! (m + 1) - z0; dz2 = zlevels g ! (m + 2) - z0;
              D1 = (arr ! (m + 1) - arr ! m) / dz1; D2 = (arr ! (m + 2) - arr ! m) / dz2;
              c = (D2 - D1) / (dz2 - dz1); b = D1 - c * dz1; s = z - z0
          in arr ! m + s * (b + c * s))
       else arr ! m + (z - zlevels g ! m) / (zlevels g ! (m + 1) - zlevels g ! m)
                        * (arr ! (m + 1) - arr ! m))"
  shows "QUAD_value g arr z val"
proof -
  have uniq: "m' = m" if "bracket g m' z" for m'
    using that m bracket_unique [OF g(2), of m' z m] by (simp add: bracket_def g(1))
  have quad: "val = quadratic a b c z"
    if "m + 2 < Mz g" and "quadratic a b c (zlevels g ! m) = arr ! m"
      "quadratic a b c (zlevels g ! (m + 1)) = arr ! (m + 1)"
      "quadratic a b c (zlevels g ! (m + 2)) = arr ! (m + 2)" for a b c
  proof -
    have d: "zlevels g ! m < zlevels g ! (m + 1)" "zlevels g ! (m + 1) < zlevels g ! (m + 2)"
      using that(1) g by (auto intro!: increasing_nth_less)
    show ?thesis
      using newton_form_is_quadratic [OF d that(2-4), of z] that(1) val by simp
  qed
  have ex: "\<exists>a b c. quadratic a b c (zlevels g ! m) = arr ! m \<and>
                       quadratic a b c (zlevels g ! (m + 1)) = arr ! (m + 1) \<and>
                       quadratic a b c (zlevels g ! (m + 2)) = arr ! (m + 2)" if "m + 2 < Mz g"
  proof -
    have d: "zlevels g ! m < zlevels g ! (m + 1)" "zlevels g ! (m + 1) < zlevels g ! (m + 2)"
      using that g by (auto intro!: increasing_nth_less)
    show ?thesis by (rule quadratic_exists [OF d])
  qed
  have lin: "val = arr ! m + (z - zlevels g ! m) / (zlevels g ! (m + 1) - zlevels g ! m)
                        * (arr ! (m + 1) - arr ! m)" if "\<not> m + 2 < Mz g"
    using that val by simp
  show ?thesis
    unfolding QUAD_value_def
  proof (intro conjI impI allI)
    assume "zlevels g ! (Mz g - 1) < z"
    then show "val = arr ! (Mz g - 1)" using z by simp
  next
    show "\<exists>m. bracket g m z" using m by blast
  next
    fix m' assume "bracket g m' z" "m' + 2 < Mz g"
    then show "\<exists>a b c. quadratic a b c (zlevels g ! m') = arr ! m' \<and>
                       quadratic a b c (zlevels g ! (m' + 1)) = arr ! (m' + 1) \<and>
                       quadratic a b c (zlevels g ! (m' + 2)) = arr ! (m' + 2)"
      using uniq ex by simp
  next
    fix m' a b c assume "bracket g m' z" "m' + 2 < Mz g"
      "quadratic a b c (zlevels g ! m') = arr ! m' \<and>
       quadratic a b c (zlevels g ! (m' + 1)) = arr ! (m' + 1) \<and>
       quadratic a b c (zlevels g ! (m' + 2)) = arr ! (m' + 2)"
    then show "val = quadratic a b c z"
      using uniq [of m'] quad [of a b c] by simp
  next
    fix m' assume "bracket g m' z" "\<not> m' + 2 < Mz g"
    then show "val = arr ! m' + (z - zlevels g ! m') / (zlevels g ! (m' + 1) - zlevels g ! m')
                        * (arr ! (m' + 1) - arr ! m')"
      using uniq [of m'] lin by simp
  qed
qed

lemma getValColumnQUAD_loop_spec:
  assumes g: "length (zlevels g) = Mz g" "2 \<le> Mz g" "sorted_wrt (<) (zlevels g)"
    and arr: "length arr = Mz g"
    and zs: "sorted_wrt (<) zs"
    and inv: "mcurr + 1 < Mz g" "\<forall>z\<in>set zs. mcurr = 0 \<or> zlevels g ! mcurr < z"
  shows "\<exists>vals. getValColumnQUAD_loop g arr mcurr zs = Inr vals \<and>
                list_all2 (QUAD_value g arr) zs vals"
  using zs inv
proof (induction zs arbitrary: mcurr)
  case Nil
  show ?case by simp
next
  case (Cons z zs)
  have top: "read_at (zlevels g) (Mz g - 1) = Inr (zlevels g ! (Mz g - 1))"
    using g by simp
  have zs: "sorted_wrt (<) zs" and later: "\<forall>z'\<in>set zs. z < z'"
    using Cons.prems(1) by auto
  show ?case
  proof (cases "z > zlevels g ! (Mz g - 1)")
    case True
    obtain rest where rest: "getValColumnQUAD_loop g arr mcurr zs = Inr rest"
      "list_all2 (QUAD_value g arr) zs rest"
      using Cons.IH [OF zs Cons.prems(2)] Cons.prems(3) by auto
    have "getValColumnQUAD_loop g arr mcurr (z # zs) = Inr (arr ! (Mz g - 1) # rest)"
      using True top rest(1) arr g(2) by simp
    then show ?thesis
      using rest(2) QUAD_value_above [OF True] by simp
  next
    case False
    then have le: "z \<le> zlevels g ! (length (zlevels g) - 1)" using g(1) by simp
    have start: "mcurr = 0 \<or> zlevels g ! mcurr < z" using Cons.prems(3) by auto
    obtain m where m: "bracket_scan (zlevels g) z mcurr = Inr m" "mcurr \<le> m"
      "m + 1 < length (zlevels g)" "z \<le> zlevels g ! (m + 1)" "m = 0 \<or> zlevels g ! m < z"
      using bracket_scan_bracket [OF g(3) _ le start] Cons.prems(2) g(1) by auto
    have br: "bracket g m z" using m g(1) by (simp add: bracket_def)
    have inv': "\<forall>z'\<in>set zs. m = 0 \<or> zlevels g ! m < z'"
      using m(5) later by fastforce
    obtain rest where rest: "getValColumnQUAD_loop g arr m zs = Inr rest"
      "list_all2 (QUAD_value g arr) zs rest"
      using Cons.IH [OF zs _ inv'] m(3) g(1) by auto
    define val where "val =
      (if m + 2 < Mz g then
         (let z0 = zlevels g ! m; dz1 = zlevels g ! (m + 1) - z0; dz2 = zlevels g ! (m + 2) - z0;
              D1 = (arr ! (m + 1) - arr ! m) / dz1; D2 = (arr ! (m + 2) - arr ! m) / dz2;
              c = (D2 - D1) / (dz2 - dz1); b = D1 - c * dz1; s = z - z0
          in arr ! m + s * (b + c * s))
       else arr ! m + (z - zlevels g ! m) / (zlevels g ! (m + 1) - zlevels g ! m)
                        * (arr ! (m + 1) - arr ! m))"
    have iff: "int (Mz g) - 2 \<le> int m \<longleftrightarrow> \<not> m + 2 < Mz g" by auto
    have "getValColumnQUAD_loop g arr mcurr (z # zs) = Inr (val # rest)"
      using False top m(1,3) rest(1) arr g(1)
      by (simp add: iff val_def Let_def)
    moreover have "QUAD_value g arr z val"
      using QUAD_value_bracket [OF g(1,3) _ br val_def] False by simp
    ultimately show ?thesis using rest(2) by simp
  qed
qed

text \<open>
  Claim C4. \<^verbatim>\<open>getValColumnQUAD\<close> on strictly increasing query levels, the first of them legal
  (the only one the code checks; legal query levels are a special case): the call succeeds and
  returns one value per query level, namely the top stored value for a level above the top stored
  level, the value of the quadratic through the samples at \<open>mcurr\<close>, \<open>mcurr + 1\<close>, \<open>mcurr + 2\<close>
  when the bracket has \<open>mcurr < Mz - 2\<close>, and the linear interpolant between \<open>mcurr\<close> and
  \<open>mcurr + 1\<close> when \<open>mcurr \<ge> Mz - 2\<close>.
\<close>

theorem getValColumnQUAD_spec:
  assumes "ice_levels_ok (grid v)" and "2 \<le> Mz (grid v)"
    and "length (array v i j) = Mz (grid v)"
    and "levelsIN \<noteq> []" and "sorted_wrt (<) levelsIN"
    and "isLegalLevel (grid v) (levelsIN ! 0) = 0"
  shows "\<exists>valsOUT. getValColumnQUAD v i j levelsIN = Inr valsOUT \<and>
           length valsOUT = length levelsIN \<and>
           (\<forall>k<length levelsIN. QUAD_value (grid v) (array v i j) (levelsIN ! k) (valsOUT ! k))"
proof -
  have g: "length (zlevels (grid v)) = Mz (grid v)" "sorted_wrt (<) (zlevels (grid v))"
    using assms(1) by (simp_all add: ice_levels_ok_def)
  have inv: "0 + 1 < Mz (grid v)" "\<forall>z\<in>set levelsIN. 0 = 0 \<or> zlevels (grid v) ! 0 < z"
    using assms(2) by simp_all
  obtain vals where vals: "getValColumnQUAD_loop (grid v) (array v i j) 0 levelsIN = Inr vals"
    "list_all2 (QUAD_value (grid v) (array v i j)) levelsIN vals"
    using getValColumnQUAD_loop_spec [OF g(1) assms(2) g(2) assms(3) assms(5) inv] by blast
  have "getValColumnQUAD v i j levelsIN = Inr vals"
    using assms(4,5,6) vals(1) by (simp add: getValColumnQUAD_def not_increasing_iff)
  then show ?thesis
    using vals(2) by (auto simp: list_all2_conv_all_nth)
qed

theorem getValColumnQUAD_spec_witness:
  "ice_levels_ok (grid example_curved_field) \<and> 2 \<le> Mz (grid example_curved_field) \<and>
   length (array example_curved_field 0 0) = Mz (grid example_curved_field) \<and>
   [0, 5, 25, 40 :: real] \<noteq> [] \<and> sorted_wrt (<) [0, 5, 25, 40 :: real] \<and>
   isLegalLevel (grid example_curved_field) ([0, 5, 25, 40] ! 0) = 0 \<and>
   (\<exists>valsOUT. getValColumnQUAD example_curved_field 0 0 [0, 5, 25, 40] = Inr valsOUT \<and>
      length valsOUT = 4 \<and> valsOUT ! 1 = 25 \<and> valsOUT ! 2 = 650 \<and> valsOUT ! 3 = 900)"
proof -
  have h: "ice_levels_ok (grid example_curved_field)" "2 \<le> Mz (grid example_curved_field)"
    "length (array example_curved_field 0 0) = Mz (grid example_curved_field)"
    "[0, 5, 25, 40 :: real] \<noteq> []" "sorted_wrt (<) [0, 5, 25, 40 :: real]"
    "isLegalLevel (grid example_curved_field) ([0, 5, 25, 40] ! 0) = 0"
    by (simp_all add: ice_levels_ok_def example_curved_field_def example_grid_def isLegalLevel_def)
  from getValColumnQUAD_spec [OF h]
  obtain valsOUT where v: "getValColumnQUAD example_curved_field 0 0 [0, 5, 25, 40] = Inr valsOUT"
    "length valsOUT = length [0, 5, 25, 40 :: real]"
    "\<forall>k<length [0, 5, 25, 40 :: real].
       QUAD_value (grid example_curved_field) (array example_curved_field 0 0)
         ([0, 5, 25, 40] ! k) (valsOUT ! k)"
    by (elim exE conjE) (rule that)
  have q: "QUAD_value example_grid [0, 100, 400, 900] ([0, 5, 25, 40] ! k) (valsOUT ! k)"
    if "k < 4" for k
    using v(3) that by (simp add: example_curved_field_def)
  have b0: "bracket example_grid 0 5" and b2: "bracket example_grid 2 25"
    by (simp_all add: bracket_def example_grid_def)
  have p: "quadratic 0 0 1 (zlevels example_grid ! 0) = [0, 100, 400, 900] ! 0 \<and>
           quadratic 0 0 1 (zlevels example_grid ! (0 + 1)) = [0, 100, 400, 900] ! (0 + 1) \<and>
           quadratic 0 0 1 (zlevels example_grid ! (0 + 2)) = [0, 100, 400, 900] ! (0 + 2)"
    by (simp add: quadratic_def example_grid_def)
  have "5 \<le> zlevels example_grid ! (Mz example_grid - 1)" "0 + 2 < Mz example_grid"
    by (simp_all add: example_grid_def)
  with q [of 1] b0 p have "valsOUT ! 1 = quadratic 0 0 1 5"
    unfolding QUAD_value_def by (simp del: One_nat_def)
  then have 1: "valsOUT ! 1 = 25" by (simp add: quadratic_def)
  have "25 \<le> zlevels example_grid ! (Mz example_grid - 1)" "\<not> 2 + 2 < Mz example_grid"
    by (simp_all add: example_grid_def)
  with q [of 2] b2 have "valsOUT ! 2 = [0, 100, 400, 900] ! 2 +
       (25 - zlevels example_grid ! 2) / (zlevels example_grid ! (2 + 1) - zlevels example_grid ! 2)
         * ([0, 100, 400, 900 :: real] ! (2 + 1) - [0, 100, 400, 900] ! 2)"
    unfolding QUAD_value_def by simp
  then have 2: "valsOUT ! 2 = 650" by (simp add: example_grid_def)
  have 3: "valsOUT ! 3 = 900"
    using q [of 3] by (simp add: QUAD_value_def example_grid_def)
  from v(1,2) h 1 2 3 show ?thesis by simp
qed

subsection \<open>Setting a column\<close>

text \<open>
  Claim C5. \<^verbatim>\<open>setValColumnPL\<close> is to raise an error and leave the field as it was when
  \<open>levelsIN\<close> is not strictly increasing, or starts above \<open>0 + \<epsilon>\<close>, or ends below \<open>Lz - \<epsilon>\<close>. With
  the \<open>\<epsilon> = 1e-6\<close> of the spec this is not what the code does (see the two inputs below): the
  checks of this function are written with the tolerance \<open>1e-3\<close>. Amended to that tolerance the
  claim holds: a non-empty \<open>levelsIN\<close> that is not strictly increasing, or starts above
  \<open>0 + 1e-3\<close>, or ends below \<open>Lz - 1e-3\<close> gets a PETSc error with code 1, 2 or 3, and the field
  is unchanged.
\<close>

theorem setValColumnPL_rejects:
  assumes "levelsIN \<noteq> []"
    and "\<not> sorted_wrt (<) levelsIN \<or> levelsIN ! 0 > 0 + 1 / 1000 \<or>
         last levelsIN < Lz (grid v) - 1 / 1000"
  shows "\<exists>c. c \<noteq> 0 \<and> setValColumnPL v i j levelsIN valsIN = (Some (SETERRQ c), v)"
proof -
  have l: "read_at levelsIN (length levelsIN - Suc 0) = Inr (last levelsIN)"
    using assms(1) by (simp add: last_conv_nth)
  have f: "read_at levelsIN 0 = Inr (levelsIN ! 0)"
    using assms(1) by simp
  show ?thesis
  proof (cases "levelsIN ! 0 > 0 + 1 / 1000")
    case True
    then have "setValColumnPL v i j levelsIN valsIN = (Some (SETERRQ 1), v)"
      by (simp add: setValColumnPL_def f)
    then show ?thesis by simp
  next
    case first: False
    show ?thesis
    proof (cases "last levelsIN < Lz (grid v) - 1 / 1000")
      case True
      then have "setValColumnPL v i j levelsIN valsIN = (Some (SETERRQ 2), v)"
        using first by (simp add: setValColumnPL_def f l)
      then show ?thesis by simp
    next
      case False
      then have "not_increasing levelsIN"
        using first assms(2) by (simp add: not_increasing_iff)
      then have "setValColumnPL v i j levelsIN valsIN = (Some (SETERRQ 3), v)"
        using first False by (simp add: setValColumnPL_def f l)
      then show ?thesis by simp
    qed
  qed
qed

theorem setValColumnPL_rejects_witness:
  "[0, 10 :: real] \<noteq> [] \<and> last [0, 10 :: real] < Lz (grid example_field) - 1 / 1000 \<and>
   (\<exists>c. c \<noteq> 0 \<and>
      setValColumnPL example_field 0 0 [0, 10] [1, 2] = (Some (SETERRQ c), example_field))"
proof -
  have h1: "[0, 10 :: real] \<noteq> []" by simp
  have l: "last [0, 10 :: real] < Lz (grid example_field) - 1 / 1000"
    by (simp add: example_field_def example_grid_def)
  then have h2: "\<not> sorted_wrt (<) [0, 10 :: real] \<or> [0, 10 :: real] ! 0 > 0 + 1 / 1000 \<or>
    last [0, 10 :: real] < Lz (grid example_field) - 1 / 1000"
    by (intro disjI2)
  from setValColumnPL_rejects [OF h1 h2] h1 l show ?thesis by (intro conjI)
qed

text \<open>
  Between the two tolerances the code raises no such error. The input column \<open>[0.0005, 30]\<close>
  starts above \<open>0 + 1e-6\<close>: it is accepted and the stored column is overwritten. The input column
  \<open>[0, 29.9995]\<close> ends below \<open>Lz - 1e-6\<close> for \<open>Lz = 30\<close>: it passes the checks, three stored levels
  are overwritten, and the scan for the fourth leaves the input array.
\<close>

theorem setValColumnPL_tolerance_counterexample:
  "[1 / 2000, 30 :: real] ! 0 > 0 + 1 / 1000000 \<and>
   fst (setValColumnPL example_field 0 0 [1 / 2000, 30] [1, 2]) = None \<and>
   array (snd (setValColumnPL example_field 0 0 [1 / 2000, 30] [1, 2])) 0 0 =
     [59998 / 59999, 79998 / 59999, 99998 / 59999, 2] \<and>
   array example_field 0 0 = [100, 200, 300, 400] \<and>
   last [0, 59999 / 2000 :: real] < Lz (grid example_field) - 1 / 1000000 \<and>
   fst (setValColumnPL example_field 0 0 [0, 59999 / 2000] [1, 2]) = Some OutOfBounds \<and>
   array (snd (setValColumnPL example_field 0 0 [0, 59999 / 2000] [1, 2])) 0 0 =
     [1, 79999 / 59999, 99999 / 59999, 400]"
  by (simp add: setValColumnPL_def example_field_def example_grid_def
      bracket_scan.simps read_at_def write_at_def upt_rec)

text \<open>
  Claim C9. Under the preconditions that \<^verbatim>\<open>setValColumnPL\<close> checks, the scan is said never to
  read \<open>levelsIN\<close> past its end. The check on the last input level has a tolerance: an input
  column that ends at \<open>29.9995\<close> passes it on a grid with \<open>Lz = 30\<close>, and for the stored level 30
  the scan then steps over the last input level and reads \<open>levelsIN[2]\<close> of a two-entry array.
\<close>

theorem setValColumnPL_scan_overrun:
  "\<not> not_increasing [0, 59999 / 2000] \<and>
   [0, 59999 / 2000 :: real] ! 0 \<le> 0 + 1 / 1000 \<and>
   last [0, 59999 / 2000 :: real] \<ge> Lz (grid example_field) - 1 / 1000 \<and>
   ice_levels_ok (grid example_field) \<and>
   bracket_scan [0, 59999 / 2000] 30 0 = Inl OutOfBounds \<and>
   fst (setValColumnPL example_field 0 0 [0, 59999 / 2000] [1, 2]) = Some OutOfBounds"
  by (simp add: setValColumnPL_def example_field_def example_grid_def ice_levels_ok_def
      bracket_scan.simps read_at_def write_at_def upt_rec)

subsection \<open>Vertical extension\<close>

lemma for_loop_fill_range:
  assumes body: "\<And>k r. lo \<le> k \<Longrightarrow> k < hi \<Longrightarrow> length r = n \<Longrightarrow> body k r = Inr (r[k := g k])"
    and len: "length r0 = n" and hi: "hi \<le> n" and lo: "lo \<le> hi"
  shows "for_loop [lo..<hi] body r0 =
         Inr (map (\<lambda>i. if lo \<le> i \<and> i < hi then g i else r0 ! i) [0..<n])"
proof -
  have "for_loop [lo..<k] body r0 =
         Inr (map (\<lambda>i. if lo \<le> i \<and> i < k then g i else r0 ! i) [0..<n])"
    if "lo \<le> k" "k \<le> hi" for k
    using that
  proof (induction k rule: dec_induct)
    case base
    have "map (\<lambda>i. if lo \<le> i \<and> i < lo then g i else r0 ! i) [0..<n] = r0"
      using len by (intro nth_equalityI) auto
    then show ?case by simp
  next
    case (step k)
    let ?r = "map (\<lambda>i. if lo \<le> i \<and> i < k then g i else r0 ! i) [0..<n]"
    have split: "[lo..<Suc k] = [lo..<k] @ [k]" using step.hyps(1) by simp
    have IH: "for_loop [lo..<k] body r0 = Inr ?r" using step by simp
    have b: "body k ?r = Inr (?r[k := g k])"
      using step.hyps(1) step.prems by (intro body) simp_all
    have "?r[k := g k] = map (\<lambda>i. if lo \<le> i \<and> i < Suc k then g i else r0 ! i) [0..<n]"
      using step.hyps(1) by (intro nth_equalityI) (auto simp: nth_list_update less_Suc_eq)
    then show ?case
      unfolding split for_loop_append IH by (simp add: b)
  qed
  from this [OF lo le_refl] show ?thesis .
qed

lemma for_loop_row:
  assumes "distinct js" and "\<forall>j\<in>set js. body j (a i j) = Inr (h j)"
  shows "for_loop js (\<lambda>j a. and_then (body j (a i j)) (\<lambda>column. Inr (a(i := (a i)(j := column))))) a =
         Inr (a(i := (\<lambda>j. if j \<in> set js then h j else a i j)))"
  using assms
proof (induction js arbitrary: a)
  case Nil
  show ?case by simp
next
  case (Cons j js)
  define F where "F = (\<lambda>j a. and_then (body j (a i j)) (\<lambda>column. Inr (a(i := (a i)(j := column)))))"
  define a1 where "a1 = a(i := (a i)(j := h j))"
  have a1: "a1 i j' = a i j'" if "j' \<noteq> j" for j'
    using that by (simp add: a1_def)
  have Fj: "F j a = Inr a1"
    using Cons.prems(2) by (simp add: F_def a1_def)
  have rest: "for_loop js F a1 = Inr (a1(i := (\<lambda>j'. if j' \<in> set js then h j' else a1 i j')))"
    unfolding F_def
  proof (rule Cons.IH)
    show "distinct js" using Cons.prems(1) by simp
    show "\<forall>j'\<in>set js. body j' (a1 i j') = Inr (h j')"
    proof
      fix j' assume j': "j' \<in> set js"
      then have "j' \<noteq> j" using Cons.prems(1) by auto
      then show "body j' (a1 i j') = Inr (h j')"
        using a1 Cons.prems(2) j' by simp
    qed
  qed
  have eq: "a1(i := (\<lambda>j'. if j' \<in> set js then h j' else a1 i j')) =
            a(i := (\<lambda>j'. if j' \<in> set (j # js) then h j' else a i j'))"
    by (auto simp: fun_eq_iff a1_def)
  have "for_loop (j # js) F a = Inr (a(i := (\<lambda>j'. if j' \<in> set (j # js) then h j' else a i j')))"
    by (simp only: for_loop.simps Fj sum.case rest eq)
  then show ?case unfolding F_def .
qed

lemma for_loop_rows:
  assumes "distinct ks" and "distinct js"
    and "\<forall>i\<in>set ks. \<forall>j\<in>set js. body i j (a i j) = Inr (h i j)"
  shows "for_loop ks
           (\<lambda>i. for_loop js
              (\<lambda>j a. and_then (body i j (a i j)) (\<lambda>column. Inr (a(i := (a i)(j := column))))))
           a =
         Inr (\<lambda>i j. if i \<in> set ks \<and> j \<in> set js then h i j else a i j)"
  using assms(1,3)
proof (induction ks arbitrary: a)
  case Nil
  show ?case by simp
next
  case (Cons i ks)
  define G where "G = (\<lambda>i. for_loop js
              (\<lambda>j a. and_then (body i j (a i j)) (\<lambda>column. Inr (a(i := (a i)(j := column))))))"
  define a1 where "a1 = a(i := (\<lambda>j. if j \<in> set js then h i j else a i j))"
  have a1: "a1 i' = a i'" if "i' \<noteq> i" for i'
    using that by (simp add: a1_def)
  have Gi: "G i a = Inr a1"
    unfolding G_def a1_def
    by (rule for_loop_row [OF assms(2)]) (use Cons.prems(2) in simp)
  have rest: "for_loop ks G a1 =
         Inr (\<lambda>i' j. if i' \<in> set ks \<and> j \<in> set js then h i' j else a1 i' j)"
    unfolding G_def
  proof (rule Cons.IH)
    show "distinct ks" using Cons.prems(1) by simp
    show "\<forall>i'\<in>set ks. \<forall>j\<in>set js. body i' j (a1 i' j) = Inr (h i' j)"
    proof (intro ballI)
      fix i' j assume i': "i' \<in> set ks" and j: "j \<in> set js"
      then have "i' \<noteq> i" using Cons.prems(1) by auto
      then show "body i' j (a1 i' j) = Inr (h i' j)"
        using a1 Cons.prems(2) i' j by simp
    qed
  qed
  have eq: "(\<lambda>i' j. if i' \<in> set ks \<and> j \<in> set js then h i' j else a1 i' j) =
            (\<lambda>i' j. if i' \<in> set (i # ks) \<and> j \<in> set js then h i' j else a i' j)"
    by (auto simp: fun_eq_iff a1_def)
  have "for_loop (i # ks) G a =
        Inr (\<lambda>i' j. if i' \<in> set (i # ks) \<and> j \<in> set js then h i' j else a i' j)"
    by (simp only: for_loop.simps Gi sum.case rest eq)
  then show ?case unfolding G_def .
qed

lemma for_owned_result:
  assumes "\<forall>i j. owned g i j \<longrightarrow> body i j (a i j) = Inr (h i j)"
  shows "for_owned g body a = Inr (\<lambda>i j. if owned g i j then h i j else a i j)"
proof -
  have o: "owned g i j \<longleftrightarrow> i \<in> set [grid_xs g..grid_xs g + grid_xm g - 1] \<and>
                           j \<in> set [grid_ys g..grid_ys g + grid_ym g - 1]" for i j
    by (auto simp: owned_def)
  have "for_owned g body a =
        Inr (\<lambda>i j. if i \<in> set [grid_xs g..grid_xs g + grid_xm g - 1] \<and>
                       j \<in> set [grid_ys g..grid_ys g + grid_ym g - 1] then h i j else a i j)"
    unfolding for_owned_def
  proof (rule for_loop_rows)
    show "\<forall>i\<in>set [grid_xs g..grid_xs g + grid_xm g - 1].
            \<forall>j\<in>set [grid_ys g..grid_ys g + grid_ym g - 1]. body i j (a i j) = Inr (h i j)"
      using assms o by blast
  qed simp_all
  then show ?thesis by (simp only: o [symmetric])
qed

lemma extend_vertically_private_result:
  assumes "old_Mz \<le> Mz (grid v)"
    and "\<forall>i j. owned (grid v) i j \<longrightarrow>
           old_Mz \<le> length (array v i j) \<and> length (a_new i j) = Mz (grid v)"
  shows "extend_vertically_private v a_new old_Mz =
         Inr (v\<lparr>array := (\<lambda>i j. if owned (grid v) i j
                              then map (\<lambda>k. if k < old_Mz then array v i j ! k else a_new i j ! k)
                                     [0..<Mz (grid v)]
                              else a_new i j)\<rparr>)"
proof -
  have col: "for_loop [0..<old_Mz]
               (\<lambda>k column. and_then (read_at (array v i j) k) (write_at column k)) (a_new i j) =
             Inr (map (\<lambda>k. if k < old_Mz then array v i j ! k else a_new i j ! k) [0..<Mz (grid v)])"
    if "owned (grid v) i j" for i j
  proof -
    have l: "old_Mz \<le> length (array v i j)" "length (a_new i j) = Mz (grid v)"
      using assms(2) that by auto
    have "for_loop [0..<old_Mz]
               (\<lambda>k column. and_then (read_at (array v i j) k) (write_at column k)) (a_new i j) =
          Inr (map (\<lambda>k. if 0 \<le> k \<and> k < old_Mz then array v i j ! k else a_new i j ! k)
                 [0..<Mz (grid v)])"
      by (rule for_loop_fill_range [where g = "\<lambda>k. array v i j ! k"])
         (use l assms(1) in auto)
    then show ?thesis by simp
  qed
  show ?thesis
    unfolding extend_vertically_private_def
    by (subst for_owned_result [where h = "\<lambda>i j. map (\<lambda>k. if k < old_Mz then array v i j ! k
                else a_new i j ! k) [0..<Mz (grid v)]"]) (use col in simp_all)
qed

lemma extend_vertically_field_result:
  assumes "old_Mz \<le> Mz (grid v)"
    and "\<forall>i j. owned (grid v) i j \<longrightarrow>
           old_Mz \<le> length (array v i j) \<and> length (a_new i j) = Mz (grid v)"
  shows "\<exists>v'. extend_vertically_field v a_new halo old_Mz filler = Inr v' \<and> grid v' = grid v \<and>
           (\<forall>i j. owned (grid v) i j \<longrightarrow>
              array v' i j =
                map (\<lambda>k. if k < old_Mz then array v i j ! k else filler i j) [0..<Mz (grid v)])"
proof -
  define c1 where "c1 = (\<lambda>i j. map (\<lambda>k. if k < old_Mz then array v i j ! k else a_new i j ! k)
                                 [0..<Mz (grid v)])"
  define v1 where "v1 = v\<lparr>array := (\<lambda>i j. if owned (grid v) i j then c1 i j else a_new i j)\<rparr>"
  define c2 where "c2 = (\<lambda>i j. map (\<lambda>k. if k < old_Mz then array v i j ! k else filler i j)
                                 [0..<Mz (grid v)])"
  have p: "extend_vertically_private v a_new old_Mz = Inr v1"
    unfolding v1_def c1_def by (rule extend_vertically_private_result [OF assms])
  have g1: "grid v1 = grid v" and l1: "localp v1 = localp v" by (simp_all add: v1_def)
  have fill: "for_loop [old_Mz..<Mz (grid v1)] (\<lambda>k column. write_at column k (filler i j))
                (array v1 i j) = Inr (c2 i j)" if "owned (grid v) i j" for i j
  proof -
    have a: "array v1 i j = c1 i j" using that by (simp add: v1_def)
    have "for_loop [old_Mz..<Mz (grid v)] (\<lambda>k column. write_at column k (filler i j)) (c1 i j) =
          Inr (map (\<lambda>k. if old_Mz \<le> k \<and> k < Mz (grid v) then filler i j else c1 i j ! k)
                 [0..<Mz (grid v)])"
      by (rule for_loop_fill_range [where g = "\<lambda>k. filler i j"])
         (use assms(1) in \<open>simp_all add: c1_def\<close>)
    moreover have "map (\<lambda>k. if old_Mz \<le> k \<and> k < Mz (grid v) then filler i j else c1 i j ! k)
                 [0..<Mz (grid v)] = c2 i j"
      unfolding c2_def by (rule nth_equalityI) (auto simp: c1_def)
    ultimately show ?thesis by (simp add: a g1)
  qed
  have f: "for_owned (grid v1)
             (\<lambda>i j. for_loop [old_Mz..<Mz (grid v1)] (\<lambda>k column. write_at column k (filler i j)))
             (array v1) =
           Inr (\<lambda>i j. if owned (grid v1) i j then c2 i j else array v1 i j)"
    by (rule for_owned_result) (use fill g1 in simp)
  define v2 where "v2 = v1\<lparr>array := (\<lambda>i j. if owned (grid v1) i j then c2 i j else array v1 i j)\<rparr>"
  have r: "extend_vertically_field v a_new halo old_Mz filler =
           Inr (if localp v1 then GhostComm halo v2 else v2)"
    unfolding extend_vertically_field_def v2_def by (simp add: p f)
  have "grid (if localp v1 then GhostComm halo v2 else v2) = grid v"
    by (simp add: GhostComm_def v2_def g1)
  moreover have "array (if localp v1 then GhostComm halo v2 else v2) i j = c2 i j"
    if "owned (grid v) i j" for i j
    using that by (simp add: GhostComm_def v2_def g1)
  ultimately show ?thesis
    unfolding c2_def using r by blast
qed

lemma extend_vertically_as_field:
  "extend_vertically v a_new halo old_Mz fill_value =
   extend_vertically_field v a_new halo old_Mz (\<lambda>i j. fill_value)"
  by (simp add: extend_vertically_def extend_vertically_field_def)

text \<open>
  Claim C6. \<^verbatim>\<open>extend_vertically\<close> with a scalar fill value leaves, in every owned column, the
  values at the indices below \<open>old_Mz\<close> as they were and sets every index from \<open>old_Mz\<close> up to
  the new \<open>Mz\<close> to the fill value; the overload with a 2-D field sets them to the value of that
  field at \<open>(i, j)\<close>.
\<close>

theorem extend_vertically_spec:
  assumes "old_Mz \<le> Mz (grid v)"
    and "\<forall>i j. owned (grid v) i j \<longrightarrow>
           old_Mz \<le> length (array v i j) \<and> length (a_new i j) = Mz (grid v)"
  shows "(\<exists>v'. extend_vertically v a_new halo old_Mz fill_value = Inr v' \<and> grid v' = grid v \<and>
            (\<forall>i j. owned (grid v) i j \<longrightarrow>
               length (array v' i j) = Mz (grid v) \<and>
               (\<forall>k<old_Mz. array v' i j ! k = array v i j ! k) \<and>
               (\<forall>k. old_Mz \<le> k \<and> k < Mz (grid v) \<longrightarrow> array v' i j ! k = fill_value))) \<and>
         (\<exists>v'. extend_vertically_field v a_new halo old_Mz filler = Inr v' \<and> grid v' = grid v \<and>
            (\<forall>i j. owned (grid v) i j \<longrightarrow>
               length (array v' i j) = Mz (grid v) \<and>
               (\<forall>k<old_Mz. array v' i j ! k = array v i j ! k) \<and>
               (\<forall>k. old_Mz \<le> k \<and> k < Mz (grid v) \<longrightarrow> array v' i j ! k = filler i j)))"
proof -
  have field: "\<exists>v'. extend_vertically_field v a_new halo old_Mz f = Inr v' \<and> grid v' = grid v \<and>
            (\<forall>i j. owned (grid v) i j \<longrightarrow>
               length (array v' i j) = Mz (grid v) \<and>
               (\<forall>k<old_Mz. array v' i j ! k = array v i j ! k) \<and>
               (\<forall>k. old_Mz \<le> k \<and> k < Mz (grid v) \<longrightarrow> array v' i j ! k = f i j))" for f
  proof -
    obtain v' where v': "extend_vertically_field v a_new halo old_Mz f = Inr v'" "grid v' = grid v"
      "\<forall>i j. owned (grid v) i j \<longrightarrow>
              array v' i j =
                map (\<lambda>k. if k < old_Mz then array v i j ! k else f i j) [0..<Mz (grid v)]"
      using extend_vertically_field_result [OF assms] by blast
    have "length (array v' i j) = Mz (grid v) \<and>
               (\<forall>k<old_Mz. array v' i j ! k = array v i j ! k) \<and>
               (\<forall>k. old_Mz \<le> k \<and> k < Mz (grid v) \<longrightarrow> array v' i j ! k = f i j)"
      if "owned (grid v) i j" for i j
      using v'(3) that assms(1) by auto
    then show ?thesis using v'(1,2) by blast
  qed
  show ?thesis
    using field [of "\<lambda>i j. fill_value"] field [of filler]
    unfolding extend_vertically_as_field by blast
qed

theorem extend_vertically_spec_witness:
  "2 \<le> Mz (grid example_short_field) \<and> owned (grid example_short_field) 0 0 \<and>
   2 \<le> length (array example_short_field 0 0) \<and>
   length (example_storage 0 0) = Mz (grid example_short_field) \<and>
   (\<exists>v'. extend_vertically example_short_field example_storage (\<lambda>i j. []) 2 7 = Inr v' \<and>
      array v' 0 0 ! 1 = 200 \<and> array v' 0 0 ! 3 = 7)"
proof -
  have h: "2 \<le> Mz (grid example_short_field)"
    "\<forall>i j. owned (grid example_short_field) i j \<longrightarrow>
      2 \<le> length (array example_short_field i j) \<and>
      length (example_storage i j) = Mz (grid example_short_field)"
    by (simp_all add: example_short_field_def example_grid_def example_storage_def)
  have o: "owned (grid example_short_field) 0 0"
    by (simp add: owned_def example_short_field_def example_grid_def)
  from extend_vertically_spec [OF h, THEN conjunct1, of "\<lambda>i j. []" 7]
  obtain v' where v': "extend_vertically example_short_field example_storage (\<lambda>i j. []) 2 7 = Inr v'"
    and c: "\<forall>i j. owned (grid example_short_field) i j \<longrightarrow>
               length (array v' i j) = Mz (grid example_short_field) \<and>
               (\<forall>k<2. array v' i j ! k = array example_short_field i j ! k) \<and>
               (\<forall>k. 2 \<le> k \<and> k < Mz (grid example_short_field) \<longrightarrow> array v' i j ! k = 7)"
    by (elim exE conjE) (rule that)
  from c o have "array v' 0 0 ! 1 = array example_short_field 0 0 ! 1"
    and "3 < Mz (grid example_short_field) \<longrightarrow> array v' 0 0 ! 3 = 7"
    by auto
  then have "array v' 0 0 ! 1 = 200 \<and> array v' 0 0 ! 3 = 7"
    by (simp add: example_short_field_def example_grid_def)
  moreover from h(2) o have "2 \<le> length (array example_short_field 0 0) \<and>
      length (example_storage 0 0) = Mz (grid example_short_field)" by blast
  ultimately show ?thesis using h(1) o v' by blast
qed

end
